theory Spec2Isabelle
  imports Main "HOL-Library.Word"
begin

unbundle bit_operations_syntax

section \<open>The reference engine: \<^verbatim>\<open>src/sha256.cpp\<close>\<close>

type_synonym u8 = "8 word"
type_synonym u32 = "32 word"
type_synonym u64 = "64 word"

subsection \<open>The macros\<close>

text \<open>\<^verbatim>\<open>#define ROR(x, n) (((x) >> (n)) | ((x) << (32 - (n))))\<close> on \<^verbatim>\<open>uint32_t\<close>.\<close>

definition ROR :: "u32 \<Rightarrow> nat \<Rightarrow> u32" where
  "ROR x n = drop_bit n x OR push_bit (32 - n) x"

definition CH :: "u32 \<Rightarrow> u32 \<Rightarrow> u32 \<Rightarrow> u32" where
  "CH x y z = (x AND y) XOR (NOT x AND z)"

definition MAJ :: "u32 \<Rightarrow> u32 \<Rightarrow> u32 \<Rightarrow> u32" where
  "MAJ x y z = (x AND y) XOR (x AND z) XOR (y AND z)"

definition EP0 :: "u32 \<Rightarrow> u32" where
  "EP0 x = ROR x 2 XOR ROR x 13 XOR ROR x 22"

definition EP1 :: "u32 \<Rightarrow> u32" where
  "EP1 x = ROR x 6 XOR ROR x 11 XOR ROR x 25"

definition SIG0 :: "u32 \<Rightarrow> u32" where
  "SIG0 x = ROR x 7 XOR ROR x 18 XOR drop_bit 3 x"

definition SIG1 :: "u32 \<Rightarrow> u32" where
  "SIG1 x = ROR x 17 XOR ROR x 19 XOR drop_bit 10 x"

definition K :: "u32 list" where
  "K = [
    0x428A2F98, 0x71374491, 0xB5C0FBCF, 0xE9B5DBA5, 0x3956C25B, 0x59F111F1, 0x923F82A4, 0xAB1C5ED5,
    0xD807AA98, 0x12835B01, 0x243185BE, 0x550C7DC3, 0x72BE5D74, 0x80DEB1FE, 0x9BDC06A7, 0xC19BF174,
    0xE49B69C1, 0xEFBE4786, 0x0FC19DC6, 0x240CA1CC, 0x2DE92C6F, 0x4A7484AA, 0x5CB0A9DC, 0x76F988DA,
    0x983E5152, 0xA831C66D, 0xB00327C8, 0xBF597FC7, 0xC6E00BF3, 0xD5A79147, 0x06CA6351, 0x14292967,
    0x27B70A85, 0x2E1B2138, 0x4D2C6DFC, 0x53380D13, 0x650A7354, 0x766A0ABB, 0x81C2C92E, 0x92722C85,
    0xA2BFE8A1, 0xA81A664B, 0xC24B8B70, 0xC76C51A3, 0xD192E819, 0xD6990624, 0xF40E3585, 0x106AA070,
    0x19A4C116, 0x1E376C08, 0x2748774C, 0x34B0BCB5, 0x391C0CB3, 0x4ED8AA4A, 0x5B9CCA4F, 0x682E6FF3,
    0x748F82EE, 0x78A5636F, 0x84C87814, 0x8CC70208, 0x90BEFFFA, 0xA4506CEB, 0xBEF9A3F7, 0xC67178F2]"

subsection \<open>The object\<close>

text \<open>
  \<^verbatim>\<open>class SHA256 { uint32_t state[8]; uint64_t count; uint8_t buffer[64]; }\<close>.
  The field \<open>transformed\<close> is a ghost: it is not in the class, and records, in order, the
  64-byte blocks that \<open>Transform\<close> has been applied to since construction.
\<close>

record SHA256 =
  state :: "u32 list"
  count :: u64
  buffer :: "u8 list"
  transformed :: "u8 list list"

definition Init :: "SHA256 \<Rightarrow> SHA256" where
  "Init s = s\<lparr>state := [0x6a09e667, 0xbb67ae85, 0x3c6ef372, 0xa54ff53a,
                         0x510e527f, 0x9b05688c, 0x1f83d9ab, 0x5be0cd19],
              count := 0\<rparr>"

text \<open>
  The constructor runs \<open>Init\<close> on the fresh object. \<open>Init\<close> does not touch \<open>buffer\<close>, so
  the buffer of a new object holds whatever the memory held: the argument \<open>raw\<close>.
\<close>

definition SHA256_new :: "u8 list \<Rightarrow> SHA256" where
  "SHA256_new raw = Init \<lparr>state = replicate 8 0, count = 0, buffer = raw, transformed = []\<rparr>"

subsection \<open>\<open>Transform\<close>\<close>

text \<open>\<^verbatim>\<open>(data[j] << 24) | (data[j + 1] << 16) | (data[j + 2] << 8) | (data[j + 3])\<close>\<close>

definition load_be32 :: "u8 list \<Rightarrow> nat \<Rightarrow> u32" where
  "load_be32 data j =
     push_bit 24 (ucast (data ! j)) OR push_bit 16 (ucast (data ! (j + 1))) OR
     push_bit 8 (ucast (data ! (j + 2))) OR ucast (data ! (j + 3))"

text \<open>
  The two loops that fill the local array \<^verbatim>\<open>m[64]\<close>; \<open>load_step\<close> and \<open>extend_step\<close> are
  their bodies (in the first loop \<open>j\<close> is always \<open>4 * i\<close>; \<open>extend_rhs m i\<close> is the right-hand side
  of the assignment to \<^verbatim>\<open>m[i]\<close> in the second). The array starts uninitialised in
  the source; every slot is written before it is read, and the model starts from zeros.
\<close>

definition load_step :: "u8 list \<Rightarrow> nat \<Rightarrow> u32 list \<Rightarrow> u32 list" where
  "load_step data i m = m[i := load_be32 data (4 * i)]"

definition extend_rhs :: "u32 list \<Rightarrow> nat \<Rightarrow> u32" where
  "extend_rhs m i = SIG1 (m ! (i - 2)) + m ! (i - 7) + SIG0 (m ! (i - 15)) + m ! (i - 16)"

definition extend_step :: "nat \<Rightarrow> u32 list \<Rightarrow> u32 list" where
  "extend_step i m = m[i := extend_rhs m i]"

definition schedule_load :: "u8 list \<Rightarrow> u32 list \<Rightarrow> u32 list" where
  "schedule_load data m0 = fold (load_step data) [0..<16] m0"

definition schedule_extend :: "u32 list \<Rightarrow> u32 list" where
  "schedule_extend m0 = fold extend_step [16..<64] m0"

definition message_schedule :: "u8 list \<Rightarrow> u32 list" where
  "message_schedule data = schedule_extend (schedule_load data (replicate 64 0))"

type_synonym regs = "u32 \<times> u32 \<times> u32 \<times> u32 \<times> u32 \<times> u32 \<times> u32 \<times> u32"

text \<open>One pass through the body of the main loop, at index \<open>i\<close>.\<close>

definition round_body :: "u32 list \<Rightarrow> nat \<Rightarrow> regs \<Rightarrow> regs" where
  "round_body m i r = (case r of (a, b, c, d, e, f, g, h) \<Rightarrow>
     let t1 = h + EP1 e + CH e f g + K ! i + m ! i;
         t2 = EP0 a + MAJ a b c
     in (t1 + t2, a, b, c, d + t1, e, f, g))"

definition main_loop :: "u32 list \<Rightarrow> regs \<Rightarrow> regs" where
  "main_loop m r = fold (round_body m) [0..<64] r"

definition Transform :: "SHA256 \<Rightarrow> u8 list \<Rightarrow> SHA256" where
  "Transform s data =
     (let m = message_schedule data;
          st = state s;
          (a, b, c, d, e, f, g, h) =
             main_loop m (st ! 0, st ! 1, st ! 2, st ! 3, st ! 4, st ! 5, st ! 6, st ! 7)
      in s\<lparr>state := [st ! 0 + a, st ! 1 + b, st ! 2 + c, st ! 3 + d,
                      st ! 4 + e, st ! 5 + f, st ! 6 + g, st ! 7 + h],
           transformed := transformed s @ [take 64 data]\<rparr>)"

subsection \<open>\<open>Update\<close>, \<open>Final\<close>, \<open>Hash\<close>\<close>

text \<open>\<^verbatim>\<open>memcpy(dst + off, src, n)\<close> and \<^verbatim>\<open>memset(dst + off, v, n)\<close> inside a buffer.\<close>

definition memcpy_at :: "u8 list \<Rightarrow> nat \<Rightarrow> u8 list \<Rightarrow> nat \<Rightarrow> u8 list" where
  "memcpy_at dst off src n = take off dst @ take n src @ drop (off + n) dst"

definition memset_at :: "u8 list \<Rightarrow> nat \<Rightarrow> u8 \<Rightarrow> nat \<Rightarrow> u8 list" where
  "memset_at dst off v n = take off dst @ replicate n v @ drop (off + n) dst"

text \<open>\<^verbatim>\<open>for (i = bufferSpace; i + 64 <= len; i += 64) Transform(data + i);\<close>, returning the final \<open>i\<close>.\<close>

function full_blocks :: "SHA256 \<Rightarrow> u8 list \<Rightarrow> nat \<Rightarrow> SHA256 \<times> nat" where
  "full_blocks s data i =
     (if i + 64 \<le> length data then full_blocks (Transform s (drop i data)) data (i + 64)
      else (s, i))"
  by pat_completeness auto
termination
  by (relation "measure (\<lambda>(s, data, i). length data - i)") auto

definition Update :: "SHA256 \<Rightarrow> u8 list \<Rightarrow> SHA256" where
  "Update s data =
     (let len = length data;
          bufferSpace = 64 - unat (count s) mod 64;
          s = s\<lparr>count := count s + of_nat len\<rparr>
      in if len \<ge> bufferSpace then
           let s = s\<lparr>buffer := memcpy_at (buffer s) (64 - bufferSpace) data bufferSpace\<rparr>;
               s = Transform s (buffer s);
               (s, i) = full_blocks s data bufferSpace
           in s\<lparr>buffer := memcpy_at (buffer s) 0 (drop i data) (len - i)\<rparr>
         else s\<lparr>buffer := memcpy_at (buffer s) (64 - bufferSpace) data len\<rparr>)"

text \<open>
  \<^verbatim>\<open>for (int j = 7; j >= 0; --j) { buffer[56 + j] = bitCount & 0xff; bitCount >>= 8; }\<close>
\<close>

definition length_step :: "nat \<Rightarrow> u8 list \<times> u64 \<Rightarrow> u8 list \<times> u64" where
  "length_step j p = (case p of (b, bitCount) \<Rightarrow>
     (b[56 + j := ucast (bitCount AND 0xff)], drop_bit 8 bitCount))"

definition store_length :: "u8 list \<Rightarrow> u64 \<Rightarrow> u8 list" where
  "store_length buf bitCount = fst (fold length_step [7, 6, 5, 4, 3, 2, 1, 0] (buf, bitCount))"

text \<open>The four bytes written for \<^verbatim>\<open>state[i]\<close> by the last loop of \<open>Final\<close>.\<close>

definition store_be32 :: "u32 \<Rightarrow> u8 list" where
  "store_be32 w = [ucast (drop_bit 24 w AND 0xff), ucast (drop_bit 16 w AND 0xff),
                   ucast (drop_bit 8 w AND 0xff), ucast (w AND 0xff)]"

definition Final :: "SHA256 \<Rightarrow> SHA256 \<times> u8 list" where
  "Final s =
     (let i = unat (count s) mod 64;
          s = s\<lparr>buffer := (buffer s)[i := 0x80]\<rparr>;
          i = i + 1;
          (s, i) = (if i > 56
                    then (let s = s\<lparr>buffer := memset_at (buffer s) i 0 (64 - i)\<rparr>
                          in (Transform s (buffer s), 0))
                    else (s, i));
          s = s\<lparr>buffer := memset_at (buffer s) i 0 (56 - i)\<rparr>;
          s = s\<lparr>buffer := store_length (buffer s) (count s * 8)\<rparr>;
          s = Transform s (buffer s)
      in (s, concat (map (\<lambda>i. store_be32 (state s ! i)) [0..<8])))"

definition Hash :: "u8 list \<Rightarrow> u8 list \<Rightarrow> u8 list" where
  "Hash raw data = snd (Final (Update (SHA256_new raw) data))"

text \<open>The test vector of \<^verbatim>\<open>tests/test_ptx_sha256.cpp\<close>.\<close>

definition test_pubkey :: "u8 list" where
  "test_pubkey = [
     0x02, 0x79, 0xBE, 0x66, 0x7E, 0xF9, 0xDC, 0xBB, 0xAC, 0x55, 0xA0, 0x62,
     0x95, 0xCE, 0x87, 0x0B, 0x07, 0x02, 0x9B, 0xFC, 0xDB, 0x2D, 0xCE, 0x28,
     0xD9, 0x59, 0xF2, 0x81, 0x5B, 0x16, 0xF8, 0x17, 0x98]"

definition test_digest :: "u8 list" where
  "test_digest = [
     0x0f, 0x71, 0x5b, 0xaf, 0x5d, 0x4c, 0x2e, 0xd3, 0x29, 0x78, 0x5c, 0xef, 0x29, 0xe5, 0x62, 0xf7,
     0x34, 0x88, 0xc8, 0xa2, 0xbb, 0x9d, 0xbc, 0x57, 0x00, 0xb3, 0x61, 0xd5, 0x4b, 0x9b, 0x05, 0x54]"

section \<open>SHA-256 as the specification words it (FIPS 180-4)\<close>

text \<open>
  These definitions follow the specification and the standard, not the code: rotation is the
  library's \<open>word_rotr\<close>, big-endian conversion is positional arithmetic, the message schedule
  is a recurrence on the index, and padding is defined for a message of any length.
\<close>

definition ROTR :: "nat \<Rightarrow> u32 \<Rightarrow> u32" where
  "ROTR n x = word_rotr n x"

definition SHR :: "nat \<Rightarrow> u32 \<Rightarrow> u32" where
  "SHR n x = of_nat (unat x div 2 ^ n)"

definition Ch :: "u32 \<Rightarrow> u32 \<Rightarrow> u32 \<Rightarrow> u32" where
  "Ch x y z = (x AND y) XOR (NOT x AND z)"

definition Maj :: "u32 \<Rightarrow> u32 \<Rightarrow> u32 \<Rightarrow> u32" where
  "Maj x y z = (x AND y) XOR (x AND z) XOR (y AND z)"

definition Sigma0 :: "u32 \<Rightarrow> u32" where
  "Sigma0 x = ROTR 2 x XOR ROTR 13 x XOR ROTR 22 x"

definition Sigma1 :: "u32 \<Rightarrow> u32" where
  "Sigma1 x = ROTR 6 x XOR ROTR 11 x XOR ROTR 25 x"

definition sigma0 :: "u32 \<Rightarrow> u32" where
  "sigma0 x = ROTR 7 x XOR ROTR 18 x XOR SHR 3 x"

definition sigma1 :: "u32 \<Rightarrow> u32" where
  "sigma1 x = ROTR 17 x XOR ROTR 19 x XOR SHR 10 x"

text \<open>The number a byte string denotes, most significant byte first, and the converse.\<close>

definition be_nat :: "u8 list \<Rightarrow> nat" where
  "be_nat bs = foldl (\<lambda>acc b. 256 * acc + unat b) 0 bs"

definition be_bytes :: "nat \<Rightarrow> nat \<Rightarrow> u8 list" where
  "be_bytes n v = map (\<lambda>k. of_nat (v div 256 ^ (n - 1 - k) mod 256)) [0..<n]"

text \<open>
  Padding: the byte \<open>0x80\<close>, then the least number of zero bytes that brings the length to
  56 modulo 64, then the length of the message in bits as a 64-bit big-endian number.
\<close>

definition fips_pad :: "u8 list \<Rightarrow> u8 list" where
  "fips_pad M = M @ [0x80] @ replicate ((119 - length M mod 64) mod 64) 0
                  @ be_bytes 8 (8 * length M mod 2 ^ 64)"

function fips_parse :: "u8 list \<Rightarrow> u8 list list" where
  "fips_parse bs = (if length bs < 64 then [] else take 64 bs # fips_parse (drop 64 bs))"
  by pat_completeness auto
termination
  by (relation "measure length") auto

text \<open>The message schedule \<open>W\<^sub>t\<close> of a block.\<close>

function fips_W :: "u8 list \<Rightarrow> nat \<Rightarrow> u32" where
  "fips_W M t =
     (if t < 16 then of_nat (be_nat (take 4 (drop (4 * t) M)))
      else sigma1 (fips_W M (t - 2)) + fips_W M (t - 7) + sigma0 (fips_W M (t - 15))
             + fips_W M (t - 16))"
  by pat_completeness auto
termination
  by (relation "measure snd") auto

definition fips_round :: "u32 \<Rightarrow> u32 \<Rightarrow> regs \<Rightarrow> regs" where
  "fips_round k w r = (case r of (a, b, c, d, e, f, g, h) \<Rightarrow>
     let T1 = h + Sigma1 e + Ch e f g + k + w;
         T2 = Sigma0 a + Maj a b c
     in (T1 + T2, a, b, c, d + T1, e, f, g))"

text \<open>The working variables after the first \<open>t\<close> rounds.\<close>

fun fips_rounds :: "(nat \<Rightarrow> u32) \<Rightarrow> nat \<Rightarrow> regs \<Rightarrow> regs" where
  "fips_rounds W 0 r = r"
| "fips_rounds W (Suc t) r = fips_round (K ! t) (W t) (fips_rounds W t r)"

definition regs_of :: "u32 list \<Rightarrow> regs" where
  "regs_of H = (H ! 0, H ! 1, H ! 2, H ! 3, H ! 4, H ! 5, H ! 6, H ! 7)"

definition list_of_regs :: "regs \<Rightarrow> u32 list" where
  "list_of_regs = (\<lambda>(a, b, c, d, e, f, g, h). [a, b, c, d, e, f, g, h])"

definition fips_compress :: "u32 list \<Rightarrow> u8 list \<Rightarrow> u32 list" where
  "fips_compress H M = map2 (+) H (list_of_regs (fips_rounds (fips_W M) 64 (regs_of H)))"

definition fips_H0 :: "u32 list" where
  "fips_H0 = [0x6a09e667, 0xbb67ae85, 0x3c6ef372, 0xa54ff53a,
              0x510e527f, 0x9b05688c, 0x1f83d9ab, 0x5be0cd19]"

definition fips_sha256 :: "u8 list \<Rightarrow> u8 list" where
  "fips_sha256 M =
     concat (map (\<lambda>w. be_bytes 4 (unat w)) (foldl fips_compress fips_H0 (fips_parse (fips_pad M))))"

section \<open>The lane program\<close>

text \<open>
  Modelled from the spec: the kernel that \<open>hash_batch\<close> launches is the PTX text
  \<^verbatim>\<open>ptx/sha256_kernel_full.ptx\<close>, written by \<^verbatim>\<open>generate_sha256_ptx.py\<close>; neither is among the
  sources. The specification gives the work of one lane: the Padding Module (the fixed layout
  for a 33-byte record), one invocation of the Compression Core on the initial hash state, and
  the eight state words written out big-endian.
\<close>

definition padding_module :: "u8 list \<Rightarrow> u8 list" where
  "padding_module r = r @ [0x80] @ replicate 22 0 @ [0, 0, 0, 0, 0, 0, 0x01, 0x08]"

definition lane_program :: "u8 list \<Rightarrow> u8 list" where
  "lane_program r =
     concat (map (\<lambda>w. be_bytes 4 (unat w)) (fips_compress fips_H0 (padding_module r)))"

text \<open>The padded block of the test vector, and its message schedule.\<close>

definition test_block :: "u8 list" where
  "test_block = padding_module test_pubkey"

definition test_W :: "u32 list" where
  "test_W =
    [0x0279be66, 0x7ef9dcbb, 0xac55a062, 0x95ce870b, 0x07029bfc, 0xdb2dce28, 0xd959f281, 0x5b16f817,
     0x98800000, 0x00000000, 0x00000000, 0x00000000, 0x00000000, 0x00000000, 0x00000000, 0x00000108,
     0x1085d5f6, 0x38699114, 0xa0e83425, 0xee865ff0, 0x5d1acef2, 0x23a5950f, 0xb3db3b5d, 0xf5ec90f0,
     0xcbd32a6c, 0x7b435394, 0xdecf6849, 0x20c1310f, 0x7cbffc73, 0x72897f91, 0x07d78f4a, 0xf74595f2,
     0x0d4fcf96, 0xe209ac62, 0x4bd5f711, 0xab720696, 0x948cf9d2, 0xd2fc3e9a, 0x6a81837c, 0xa65ddea1,
     0x9323e143, 0x6e3cbfa1, 0x6d094e5f, 0x93ffa030, 0x520bb632, 0x786d8677, 0xfa7bd3d8, 0xdcaba4cd,
     0xc1d42a13, 0x4c04c1e3, 0x29ee931e, 0x8028af64, 0xc93df5c8, 0xa5511675, 0xabcbc50b, 0x7f221a1d,
     0xda2aaa97, 0xc76b0bc7, 0x88b5ca76, 0xc5524cba, 0xd4153abe, 0xee826d54, 0x1cfaf8b5, 0x674f76d1]"

section \<open>The batch dispatcher: \<^verbatim>\<open>include/ptx_sha256.hpp\<close>\<close>

subsection \<open>The CUDA driver, at its interface\<close>

text \<open>
  \<open>hash_batch\<close> reaches the device through six entry points of the CUDA driver API. The
  driver is not part of the repository; the model keeps what \<open>hash_batch\<close> can observe of it:
  \<^item> \<open>allocations\<close>: the live device allocations, each with its contents;
  \<^item> \<open>pending\<close>: the answers the driver will give to the coming requests, first request
    first, and \<open>CUDA_SUCCESS\<close> once the list is used up. Any pattern of device failures is
    some value of this field;
  \<^item> \<open>uninit\<close>: what newly allocated memory holds (\<open>cuMemAlloc\<close> does not clear it), by
    device pointer and offset;
  \<^item> \<open>calls\<close>: a ghost, the requests made so far with their answers.
  A request that fails has no effect on device or host memory. As the driver API documents,
  \<open>cuMemAlloc\<close> of zero bytes and \<open>cuLaunchKernel\<close> with an empty grid or block answer
  \<open>CUDA_ERROR_INVALID_VALUE\<close>.
\<close>

datatype CUresult =
    CUDA_SUCCESS
  | CUDA_ERROR_INVALID_VALUE
  | CUDA_ERROR_OUT_OF_MEMORY
  | CUDA_ERROR_LAUNCH_FAILED
  | CUDA_ERROR_ILLEGAL_ADDRESS

type_synonym CUdeviceptr = nat

datatype driver_call =
    MemAlloc nat
  | MemFree CUdeviceptr
  | MemcpyHtoD CUdeviceptr nat
  | LaunchKernel nat nat
  | CtxSynchronize
  | MemcpyDtoH CUdeviceptr nat

record device =
  allocations :: "(CUdeviceptr \<times> u8 list) list"
  pending :: "CUresult list"
  uninit :: "CUdeviceptr \<Rightarrow> nat \<Rightarrow> u8"
  calls :: "(driver_call \<times> CUresult) list"

text \<open>
  What a kernel does, seen from the host: from the contents of the input area and of the
  output area, the count it is passed and the number of threads launched, the new contents
  of the output area.
\<close>

type_synonym kernel_fn = "u8 list \<Rightarrow> u8 list \<Rightarrow> u32 \<Rightarrow> nat \<Rightarrow> u8 list"

definition logged :: "driver_call \<Rightarrow> CUresult \<Rightarrow> device \<Rightarrow> device" where
  "logged c r d = d\<lparr>calls := calls d @ [(c, r)]\<rparr>"

definition next_result :: "device \<Rightarrow> CUresult \<times> device" where
  "next_result d = (case pending d of [] \<Rightarrow> (CUDA_SUCCESS, d)
                                    | r # rs \<Rightarrow> (r, d\<lparr>pending := rs\<rparr>))"

definition fresh_ptr :: "device \<Rightarrow> CUdeviceptr" where
  "fresh_ptr d = Suc (fold max (map fst (allocations d)) 0)"

text \<open>The contents of \<open>n\<close> newly allocated bytes at device pointer \<open>p\<close>.\<close>

definition fresh_bytes :: "device \<Rightarrow> CUdeviceptr \<Rightarrow> nat \<Rightarrow> u8 list" where
  "fresh_bytes d p n = map (uninit d p) [0..<n]"

text \<open>Writing \<open>bytes\<close> at the start of a buffer; the buffer keeps its size.\<close>

definition overwrite :: "u8 list \<Rightarrow> u8 list \<Rightarrow> u8 list" where
  "overwrite buf bytes = take (length buf) (bytes @ drop (length bytes) buf)"

definition store_buf :: "CUdeviceptr \<Rightarrow> u8 list \<Rightarrow> device \<Rightarrow> device" where
  "store_buf p b d = d\<lparr>allocations := map (\<lambda>(q, c). if q = p then (q, b) else (q, c)) (allocations d)\<rparr>"

definition cuMemAlloc :: "device \<Rightarrow> nat \<Rightarrow> CUresult \<times> CUdeviceptr \<times> device" where
  "cuMemAlloc d bytesize =
     (if bytesize = 0
      then (CUDA_ERROR_INVALID_VALUE, 0, logged (MemAlloc bytesize) CUDA_ERROR_INVALID_VALUE d)
      else let (r, d) = next_result d
           in if r \<noteq> CUDA_SUCCESS then (r, 0, logged (MemAlloc bytesize) r d)
              else let p = fresh_ptr d
                   in (CUDA_SUCCESS, p,
                       logged (MemAlloc bytesize) CUDA_SUCCESS
                         (d\<lparr>allocations := (p, fresh_bytes d p bytesize) # allocations d\<rparr>)))"

definition cuMemFree :: "device \<Rightarrow> CUdeviceptr \<Rightarrow> device" where
  "cuMemFree d p =
     logged (MemFree p) (if p \<in> fst ` set (allocations d) then CUDA_SUCCESS else CUDA_ERROR_INVALID_VALUE)
       (d\<lparr>allocations := filter (\<lambda>(q, c). q \<noteq> p) (allocations d)\<rparr>)"

definition cuMemcpyHtoD :: "device \<Rightarrow> CUdeviceptr \<Rightarrow> u8 list \<Rightarrow> nat \<Rightarrow> CUresult \<times> device" where
  "cuMemcpyHtoD d dst src n =
     (case map_of (allocations d) dst of
        None \<Rightarrow> (CUDA_ERROR_INVALID_VALUE, logged (MemcpyHtoD dst n) CUDA_ERROR_INVALID_VALUE d)
      | Some buf \<Rightarrow>
          if length buf < n
          then (CUDA_ERROR_INVALID_VALUE, logged (MemcpyHtoD dst n) CUDA_ERROR_INVALID_VALUE d)
          else let (r, d) = next_result d
               in if r \<noteq> CUDA_SUCCESS then (r, logged (MemcpyHtoD dst n) r d)
                  else (CUDA_SUCCESS,
                        logged (MemcpyHtoD dst n) CUDA_SUCCESS
                          (store_buf dst (overwrite buf (take n src)) d)))"

definition cuLaunchKernel ::
  "device \<Rightarrow> kernel_fn \<Rightarrow> nat \<Rightarrow> nat \<Rightarrow> CUdeviceptr \<Rightarrow> CUdeviceptr \<Rightarrow> u32 \<Rightarrow> CUresult \<times> device" where
  "cuLaunchKernel d f gridDimX blockDimX d_input d_output num_keys =
     (if gridDimX = 0 \<or> blockDimX = 0
      then (CUDA_ERROR_INVALID_VALUE,
            logged (LaunchKernel gridDimX blockDimX) CUDA_ERROR_INVALID_VALUE d)
      else let (r, d) = next_result d
           in if r \<noteq> CUDA_SUCCESS then (r, logged (LaunchKernel gridDimX blockDimX) r d)
              else (CUDA_SUCCESS,
                    logged (LaunchKernel gridDimX blockDimX) CUDA_SUCCESS
                      (case (map_of (allocations d) d_input, map_of (allocations d) d_output) of
                         (Some inp, Some out) \<Rightarrow>
                            store_buf d_output
                              (overwrite out (f inp out num_keys (gridDimX * blockDimX))) d
                       | _ \<Rightarrow> d)))"

definition cuCtxSynchronize :: "device \<Rightarrow> CUresult \<times> device" where
  "cuCtxSynchronize d = (let (r, d) = next_result d in (r, logged CtxSynchronize r d))"

definition cuMemcpyDtoH :: "device \<Rightarrow> u8 list \<Rightarrow> CUdeviceptr \<Rightarrow> nat \<Rightarrow> CUresult \<times> u8 list \<times> device" where
  "cuMemcpyDtoH d dst src n =
     (case map_of (allocations d) src of
        None \<Rightarrow> (CUDA_ERROR_INVALID_VALUE, dst, logged (MemcpyDtoH src n) CUDA_ERROR_INVALID_VALUE d)
      | Some buf \<Rightarrow>
          if length buf < n
          then (CUDA_ERROR_INVALID_VALUE, dst, logged (MemcpyDtoH src n) CUDA_ERROR_INVALID_VALUE d)
          else let (r, d) = next_result d
               in if r \<noteq> CUDA_SUCCESS then (r, dst, logged (MemcpyDtoH src n) r d)
                  else (CUDA_SUCCESS, overwrite dst (take n buf),
                        logged (MemcpyDtoH src n) CUDA_SUCCESS d))"

subsection \<open>\<open>hash_batch\<close>\<close>

text \<open>
  \<^verbatim>\<open>class PTX_SHA256\<close>: of its members \<open>hash_batch\<close> reads \<^verbatim>\<open>initialized_\<close> and \<^verbatim>\<open>kernel_\<close>, the
  function that \<open>initialize\<close> loaded from the PTX file; \<open>module_\<close> and \<open>context_\<close> are handles
  it does not use. It writes none of them. (A name cannot end in an underscore here: the
  fields are \<open>initialized\<close> and \<open>kernel\<close>.)
\<close>

record PTX_SHA256 =
  kernel :: kernel_fn
  initialized :: bool

text \<open>
  What a call leaves behind: the value returned, the caller's output buffer, the device, and
  the lines written to \<^verbatim>\<open>std::cerr\<close>.
\<close>

record batch_result =
  returned :: bool
  host_output :: "u8 list"
  device_after :: device
  cerr :: "string list"

definition failed :: "string \<Rightarrow> u8 list \<Rightarrow> device \<Rightarrow> batch_result" where
  "failed msg out d = \<lparr>returned = False, host_output = out, device_after = d, cerr = [msg]\<rparr>"

text \<open>
  \<^verbatim>\<open>size_t input_size = num_keys * 33;\<close> and \<^verbatim>\<open>size_t output_size = num_keys * 32;\<close>: the
  operands are \<^verbatim>\<open>uint32_t\<close> and \<^verbatim>\<open>int\<close>, so the product is formed in 32 bits and then widened.
  \<^verbatim>\<open>int blocks = (num_keys + threads_per_block - 1) / threads_per_block;\<close> likewise.
\<close>

definition input_size :: "u32 \<Rightarrow> nat" where
  "input_size num_keys = unat (num_keys * 33)"

definition output_size :: "u32 \<Rightarrow> nat" where
  "output_size num_keys = unat (num_keys * 32)"

definition blocks :: "u32 \<Rightarrow> nat" where
  "blocks num_keys = unat ((num_keys + 128 - 1) div 128)"

definition hash_batch :: "PTX_SHA256 \<Rightarrow> device \<Rightarrow> u8 list \<Rightarrow> u8 list \<Rightarrow> u32 \<Rightarrow> batch_result" where
  "hash_batch e d h_input h_output num_keys =
     (if \<not> initialized e then failed ''PTX_SHA256 not initialized'' h_output d
      else
        let input_size = input_size num_keys;
            output_size = output_size num_keys;
            (result, d_input, d) = cuMemAlloc d input_size
        in if result \<noteq> CUDA_SUCCESS
           then failed ''Failed to allocate input memory'' h_output d
           else
        let (result, d_output, d) = cuMemAlloc d output_size
        in if result \<noteq> CUDA_SUCCESS
           then failed ''Failed to allocate output memory'' h_output (cuMemFree d d_input)
           else
        let (result, d) = cuMemcpyHtoD d d_input h_input input_size
        in if result \<noteq> CUDA_SUCCESS
           then failed ''Failed to copy input to device'' h_output
                  (cuMemFree (cuMemFree d d_input) d_output)
           else
        let threads_per_block = 128;
            blocks = blocks num_keys;
            (result, d) = cuLaunchKernel d (kernel e) blocks threads_per_block
                            d_input d_output num_keys
        in if result \<noteq> CUDA_SUCCESS
           then failed ''Failed to launch kernel'' h_output
                  (cuMemFree (cuMemFree d d_input) d_output)
           else
        let (result, d) = cuCtxSynchronize d
        in if result \<noteq> CUDA_SUCCESS
           then failed ''Kernel execution failed'' h_output
                  (cuMemFree (cuMemFree d d_input) d_output)
           else
        let (result, h_output, d) = cuMemcpyDtoH d h_output d_output output_size
        in if result \<noteq> CUDA_SUCCESS
           then failed ''Failed to copy output from device'' h_output
                  (cuMemFree (cuMemFree d d_input) d_output)
           else \<lparr>returned = True, host_output = h_output,
                  device_after = cuMemFree (cuMemFree d d_input) d_output, cerr = []\<rparr>)"

subsection \<open>The kernel\<close>

text \<open>
  Modelled from the spec: the kernel \<^verbatim>\<open>sha256_kernel\<close> of the PTX file, which is not among the
  sources. Lane \<open>i\<close> consumes the record at offset \<open>33 * i\<close> of the input area and writes the
  32 bytes of \<open>lane_program\<close> at offset \<open>32 * i\<close> of the output area; there is one lane for each
  index below the count, as far as threads were launched. The specification defines a lane
  on a whole record and a whole slot of the staging areas; a lane that has not both leaves
  the output area as it is.
\<close>

definition lane :: "u8 list \<Rightarrow> nat \<Rightarrow> u8 list \<Rightarrow> u8 list" where
  "lane inp i out =
     (if 33 * i + 33 \<le> length inp \<and> 32 * i + 32 \<le> length out
      then take (32 * i) out @ lane_program (take 33 (drop (33 * i) inp)) @ drop (32 * i + 32) out
      else out)"

definition sha256_kernel :: kernel_fn where
  "sha256_kernel inp out num_keys threads = fold (lane inp) [0..<min (unat num_keys) threads] out"

text \<open>Record \<open>i\<close> of a batch, and the digests of its first \<open>n\<close> records, in order.\<close>

definition record_at :: "u8 list \<Rightarrow> nat \<Rightarrow> u8 list" where
  "record_at h_input i = take 33 (drop (33 * i) h_input)"

definition digests :: "u8 list \<Rightarrow> nat \<Rightarrow> u8 list" where
  "digests h_input n = concat (map (\<lambda>i. lane_program (record_at h_input i)) [0..<n])"

text \<open>An initialized engine holding the kernel, and a device with nothing allocated.\<close>

definition engine0 :: PTX_SHA256 where
  "engine0 = \<lparr>kernel = sha256_kernel, initialized = True\<rparr>"

definition device0 :: "u8 \<Rightarrow> CUresult list \<Rightarrow> device" where
  "device0 b rs = \<lparr>allocations = [], pending = rs, uninit = (\<lambda>p k. b), calls = []\<rparr>"

section \<open>Properties of the reference engine\<close>

subsection \<open>The macros and the byte order\<close>

lemma ROR_rotr: 
  assumes "0 < n" "n < 32" shows "ROR x n = ROTR n x"
  unfolding ROR_def ROTR_def
proof (rule bit_word_eqI)
  fix k assume k: "k < LENGTH(32)"
  show "bit (drop_bit n x OR push_bit (32 - n) x) k = bit (word_rotr n x) k"
  proof (cases "k + n < 32")
    case True
    then have "(k + n) mod 32 = k + n" and "\<not> 32 - n \<le> k" by simp_all
    with True k assms show ?thesis
      by (simp add: bit_or_iff bit_drop_bit_eq bit_push_bit_iff bit_word_rotr_iff add.commute)
  next
    case False
    then have m: "(k + n) mod 32 = k + n - 32" using k assms
      by (simp add: mod_if)
    have "\<not> bit x (n + k)" using False bit_imp_le_length [of x "n + k"] by auto
    moreover have "k - (32 - n) = k + n - 32" "32 - n \<le> k" using False assms by simp_all
    ultimately show ?thesis using False k assms m
      by (simp add: bit_or_iff bit_drop_bit_eq bit_push_bit_iff bit_word_rotr_iff)
  qed
qed

lemma SHR_drop: "SHR n x = drop_bit n x"
  unfolding SHR_def
  by (metis drop_bit_eq_div unat_div_distrib unat_drop_bit_eq word_arith_nat_div)

lemma ucast_byte_bit: "bit (ucast (b::u8) :: u32) n \<Longrightarrow> n < 8"
  by (auto simp: bit_ucast_iff dest: bit_imp_le_length)

lemma be4: "(of_nat (be_nat [a,b,c,d]) :: u32) = push_bit 24 (ucast a) OR push_bit 16 (ucast b) OR push_bit 8 (ucast c) OR ucast d"
proof -
  let ?A = "ucast a :: u32" and ?B = "ucast b :: u32" and ?C = "ucast c :: u32" and ?D = "ucast d :: u32"
  have d3: "push_bit 8 ?C AND ?D = 0"
    by (rule bit_word_eqI) (auto simp: bit_and_iff bit_push_bit_iff dest: ucast_byte_bit)
  have d2: "push_bit 16 ?B AND (push_bit 8 ?C OR ?D) = 0"
    by (rule bit_word_eqI) (auto simp: bit_and_iff bit_or_iff bit_push_bit_iff dest: ucast_byte_bit)
  have d1: "push_bit 24 ?A AND (push_bit 16 ?B OR push_bit 8 ?C OR ?D) = 0"
    by (rule bit_word_eqI) (auto simp: bit_and_iff bit_or_iff bit_push_bit_iff dest: ucast_byte_bit)
  have "push_bit 24 ?A OR push_bit 16 ?B OR push_bit 8 ?C OR ?D
        = push_bit 24 ?A + (push_bit 16 ?B + (push_bit 8 ?C + ?D))"
    using d1 d2 d3 by (simp add: disjunctive_add_eq_or or.assoc)
  also have "\<dots> = of_nat (be_nat [a,b,c,d])"
    by (simp add: be_nat_def push_bit_eq_mult algebra_simps)
  finally show ?thesis by simp
qed

lemma byte_of_word: "(ucast (drop_bit k (w::u32) AND 0xff) :: u8) = of_nat (unat w div 2 ^ k mod 256)"
proof -
  have e: "drop_bit k w AND 0xff = take_bit 8 (drop_bit k w)"
    by (simp add: take_bit_eq_mask mask_eq_exp_minus_1)
  have "(ucast (drop_bit k w AND 0xff) :: u8) = ucast (drop_bit k w)"
    unfolding e by (rule bit_word_eqI) (simp add: bit_ucast_iff bit_take_bit_iff)
  also have "\<dots> = of_nat (unat (drop_bit k w))" by simp
  also have "\<dots> = of_nat (unat w div 2 ^ k)" by (subst unat_drop_bit_eq, subst drop_bit_eq_div, rule refl)
  also have "\<dots> = of_nat (unat w div 2 ^ k mod 256)"
    by (simp add: word_of_nat_eq_iff take_bit_eq_mod)
  finally show ?thesis .
qed

lemma store_be32_bytes: "store_be32 w = be_bytes 4 (unat w)"
proof -
  have u: "[0..<4] = [0, 1, 2, 3]" by (simp add: upt_rec)
  have "(ucast (w AND 0xff) :: u8) = of_nat (unat w div 2 ^ 0 mod 256)"
    using byte_of_word [of 0 w] by simp
  then show ?thesis
    using byte_of_word [of 24 w] byte_of_word [of 16 w] byte_of_word [of 8 w]
    by (simp add: store_be32_def be_bytes_def u)
qed

lemma load_be32_nat:
  assumes "j + 3 < length data"
  shows "load_be32 data j = of_nat (be_nat (take 4 (drop j data)))"
proof -
  have "take 4 (drop j data) = [data ! j, data ! (j + 1), data ! (j + 2), data ! (j + 3)]"
    using assms by (intro nth_equalityI) (auto simp: nth_Cons' less_Suc_eq numeral_eq_Suc)
  then show ?thesis by (simp add: be4 load_be32_def)
qed

lemma length_store_be32: "length (store_be32 w) = 4" by (simp add: store_be32_def)


lemma length_load_step: "length (load_step data i m) = length m"
  by (simp add: load_step_def)

lemma length_extend_step: "length (extend_step i m) = length m"
  by (simp add: extend_step_def)

lemma load_loop_inv:
  assumes "n \<le> length m0"
  shows "length (fold (load_step data) [0..<n] m0) = length m0
       \<and> (\<forall>i<n. fold (load_step data) [0..<n] m0 ! i = load_be32 data (4 * i))
       \<and> (\<forall>i\<ge>n. fold (load_step data) [0..<n] m0 ! i = m0 ! i)"
  using assms
proof (induction n)
  case 0
  then show ?case by simp
next
  case (Suc n)
  let ?m = "fold (load_step data) [0..<n] m0"
  from Suc have ih: "length ?m = length m0" "\<forall>i<n. ?m ! i = load_be32 data (4 * i)"
    "\<forall>i\<ge>n. ?m ! i = m0 ! i" by simp_all
  have step: "fold (load_step data) [0..<Suc n] m0 = ?m[n := load_be32 data (4 * n)]"
    by (simp add: load_step_def)
  from Suc.prems ih show ?case
    unfolding step by (auto simp: nth_list_update less_Suc_eq)
qed

lemma extend_loop_inv:
  assumes "16 \<le> n" "n \<le> length m0"
  shows "length (fold extend_step [16..<n] m0) = length m0
       \<and> (\<forall>i<16. fold extend_step [16..<n] m0 ! i = m0 ! i)
       \<and> (\<forall>i. 16 \<le> i \<and> i < n \<longrightarrow>
             fold extend_step [16..<n] m0 ! i = extend_rhs (fold extend_step [16..<n] m0) i)
       \<and> (\<forall>i\<ge>n. fold extend_step [16..<n] m0 ! i = m0 ! i)"
  using assms
proof (induction n rule: dec_induct)
  case base
  then show ?case by auto
next
  case (step n)
  define m where "m = fold extend_step [16..<n] m0"
  define m' where "m' = m[n := extend_rhs m n]"
  from step have ih: "length m = length m0" "\<forall>i<16. m ! i = m0 ! i"
    "\<forall>i. 16 \<le> i \<and> i < n \<longrightarrow> m ! i = extend_rhs m i" "\<forall>i\<ge>n. m ! i = m0 ! i"
    by (simp_all add: m_def)
  have eq: "fold extend_step [16..<Suc n] m0 = m'"
    using step.hyps by (simp add: extend_step_def m_def m'_def)
  have n: "n < length m" using step.prems ih by simp
  have same: "m' ! i = m ! i" if "i \<noteq> n" for i
    using that by (simp add: m'_def)
  have rhs: "extend_rhs m' i = extend_rhs m i" if "16 \<le> i" "i \<le> n" for i
    using that by (simp add: extend_rhs_def same)
  have at: "m' ! n = extend_rhs m n"
    using n by (simp add: m'_def)
  have "length m' = length m0" using ih by (simp add: m'_def)
  moreover have "m' ! i = m0 ! i" if "i < 16" for i
    using that step.hyps ih same [of i] by simp
  moreover have "m' ! i = extend_rhs m' i" if "16 \<le> i \<and> i < Suc n" for i
  proof (cases "i = n")
    case True
    then show ?thesis using at rhs [of n] step.hyps by simp
  next
    case False
    then show ?thesis using that ih same [of i] rhs [of i] by simp
  qed
  moreover have "m' ! i = m0 ! i" if "Suc n \<le> i" for i
    using that ih same [of i] by simp
  ultimately show ?case unfolding eq by blast
qed

lemma length_message_schedule: "length (message_schedule data) = 64"
  using extend_loop_inv [of 64 "schedule_load data (replicate 64 0)"]
    load_loop_inv [of 16 "replicate 64 0" data]
  by (simp add: message_schedule_def schedule_extend_def schedule_load_def)

lemma message_schedule_low:
  assumes "i < 16"
  shows "message_schedule data ! i = load_be32 data (4 * i)"
  using assms extend_loop_inv [of 64 "schedule_load data (replicate 64 0)"]
    load_loop_inv [of 16 "replicate 64 0" data]
  by (simp add: message_schedule_def schedule_extend_def schedule_load_def)

lemma message_schedule_high:
  assumes "16 \<le> i" "i < 64"
  shows "message_schedule data ! i = extend_rhs (message_schedule data) i"
  using assms extend_loop_inv [of 64 "schedule_load data (replicate 64 0)"]
    load_loop_inv [of 16 "replicate 64 0" data]
  by (simp add: message_schedule_def schedule_extend_def schedule_load_def)

declare fips_W.simps [simp del]

lemma SIG0_sigma0: "SIG0 x = sigma0 x"
  by (simp add: SIG0_def sigma0_def ROR_rotr SHR_drop)

lemma SIG1_sigma1: "SIG1 x = sigma1 x"
  by (simp add: SIG1_def sigma1_def ROR_rotr SHR_drop)

lemma EP0_Sigma0: "EP0 x = Sigma0 x"
  by (simp add: EP0_def Sigma0_def ROR_rotr)

lemma EP1_Sigma1: "EP1 x = Sigma1 x"
  by (simp add: EP1_def Sigma1_def ROR_rotr)

lemma message_schedule_fips:
  assumes "length data = 64" "t < 64"
  shows "message_schedule data ! t = fips_W data t"
  using assms(2)
proof (induction t rule: less_induct)
  case (less t)
  show ?case
  proof (cases "t < 16")
    case True
    then have "4 * t + 3 < length data" using assms(1) by simp
    with True show ?thesis
      by (subst fips_W.simps) (simp add: message_schedule_low load_be32_nat)
  next
    case False
    with less.prems have "message_schedule data ! t = extend_rhs (message_schedule data) t"
      by (simp add: message_schedule_high)
    also have "\<dots> = sigma1 (fips_W data (t - 2)) + fips_W data (t - 7)
                     + sigma0 (fips_W data (t - 15)) + fips_W data (t - 16)"
      using False less.prems
      by (simp add: extend_rhs_def less.IH SIG0_sigma0 SIG1_sigma1)
    also have "\<dots> = fips_W data t"
      using False by (subst (5) fips_W.simps) simp
    finally show ?thesis .
  qed
qed

subsection \<open>Evaluating the test vector\<close>

text \<open>Unrolling for evaluation: \<open>replicate\<close> at a numeral (intervals unroll by \<open>upt_rec\<close>).\<close>

lemma replicate_numeral: "replicate (numeral k) x = x # replicate (pred_numeral k) x"
  by (simp add: numeral_eq_Suc)

text \<open>
  Evaluation by rewriting keeps numerals below \<open>2 ^ 32\<close> only when told to: these equations
  put a \<open>take_bit 32\<close>, the identity on \<open>u32\<close>, where a sum or a left shift is formed.
\<close>

lemma take_bit_u32: "take_bit 32 (x::u32) = x"
  by (simp add: take_bit_word_eq_self)

lemma ROR_eval: "ROR x n = drop_bit n x OR take_bit 32 (push_bit (32 - n) x)"
  by (simp add: ROR_def take_bit_u32)

lemma extend_rhs_eval:
  "extend_rhs m i = take_bit 32 (SIG1 (m ! (i - 2)) + m ! (i - 7) + SIG0 (m ! (i - 15)) + m ! (i - 16))"
  by (simp add: extend_rhs_def take_bit_u32)

lemma round_body_eval: "round_body m i (a, b, c, d, e, f, g, h) =
     (let t1 = take_bit 32 (h + EP1 e + CH e f g + K ! i + m ! i);
          t2 = take_bit 32 (EP0 a + MAJ a b c)
      in (take_bit 32 (t1 + t2), a, b, c, take_bit 32 (d + t1), e, f, g))"
  by (simp add: round_body_def take_bit_u32)

lemma test_schedule: "message_schedule test_block = test_W"
  by (simp add: message_schedule_def schedule_load_def schedule_extend_def upt_rec
      test_block_def padding_module_def test_pubkey_def replicate_numeral load_step_def load_be32_def
      extend_step_def extend_rhs_eval SIG0_def SIG1_def ROR_eval test_W_def)

lemma test_rounds: "main_loop test_W (0x6a09e667, 0xbb67ae85, 0x3c6ef372, 0xa54ff53a, 0x510e527f, 0x9b05688c, 0x1f83d9ab, 0x5be0cd19) =
   (0xa5677548, 0xa1e4804e, 0xed09697d, 0x84956dbd, 0xe37a7623, 0x209853cb, 0xe12f882a, 0xefba383b)"
  by (simp add: main_loop_def upt_rec test_W_def round_body_eval K_def EP0_def EP1_def CH_def MAJ_def ROR_eval)

subsection \<open>The main loop and \<open>Transform\<close>\<close>

lemma CH_Ch: "CH x y z = Ch x y z" by (simp add: CH_def Ch_def)
lemma MAJ_Maj: "MAJ x y z = Maj x y z" by (simp add: MAJ_def Maj_def)

lemma round_body_fips: "round_body m i r = fips_round (K ! i) (m ! i) r"
  by (simp add: round_body_def fips_round_def EP0_Sigma0 EP1_Sigma1 CH_Ch MAJ_Maj)

lemma fold_rounds_fips: "fold (round_body m) [0..<n] r = fips_rounds (\<lambda>t. m ! t) n r"
  by (induction n) (simp_all add: round_body_fips)

lemma fips_rounds_cong:
  "(\<And>t. t < n \<Longrightarrow> W t = W' t) \<Longrightarrow> fips_rounds W n r = fips_rounds W' n r"
  by (induction n) simp_all

lemma main_loop_fips: "main_loop m r = fips_rounds (\<lambda>t. m ! t) 64 r"
  by (simp add: main_loop_def fold_rounds_fips)

lemma Transform_eq:
  "Transform s data =
     s\<lparr>state := (let st = state s in
                   case main_loop (message_schedule data) (regs_of st) of
                     (a, b, c, d, e, f, g, h) \<Rightarrow>
                       [st ! 0 + a, st ! 1 + b, st ! 2 + c, st ! 3 + d,
                        st ! 4 + e, st ! 5 + f, st ! 6 + g, st ! 7 + h]),
       transformed := transformed s @ [take 64 data]\<rparr>"
  by (simp add: Transform_def regs_of_def Let_def split: prod.splits)

lemma list8:
  assumes "length xs = 8"
  shows "xs = [xs ! 0, xs ! 1, xs ! 2, xs ! 3, xs ! 4, xs ! 5, xs ! 6, xs ! 7]"
  using assms by (intro nth_equalityI) (auto simp: nth_Cons' less_Suc_eq numeral_eq_Suc)

lemma add_regs:
  assumes "length st = 8"
  shows "(case r of (a, b, c, d, e, f, g, h) \<Rightarrow>
            [st ! 0 + a, st ! 1 + b, st ! 2 + c, st ! 3 + d,
             st ! 4 + e, st ! 5 + f, st ! 6 + g, st ! 7 + h])
         = map2 (+) st (list_of_regs r)"
proof -
  obtain x0 x1 x2 x3 x4 x5 x6 x7 where st: "st = [x0, x1, x2, x3, x4, x5, x6, x7]"
    by (rule that [OF list8 [OF assms]])
  show ?thesis
    unfolding st by (simp add: list_of_regs_def split: prod.splits)
qed

lemma Transform_fips:
  assumes "length (state s) = 8"
  shows "Transform s data =
     s\<lparr>state := map2 (+) (state s)
                   (list_of_regs (fips_rounds (\<lambda>t. message_schedule data ! t) 64 (regs_of (state s)))),
       transformed := transformed s @ [take 64 data]\<rparr>"
  by (simp only: Transform_eq Let_def add_regs [OF assms] main_loop_fips)

lemma Transform_compress:
  assumes "length (state s) = 8" "length data = 64"
  shows "state (Transform s data) = fips_compress (state s) data"
proof -
  have "fips_rounds (\<lambda>t. message_schedule data ! t) 64 r = fips_rounds (fips_W data) 64 r" for r
    by (rule fips_rounds_cong) (simp add: message_schedule_fips assms(2))
  then show ?thesis
    by (simp add: Transform_fips [OF assms(1)] fips_compress_def)
qed

subsection \<open>A 33-byte message\<close>

lemma Update_33:
  assumes "length data = 33" "length raw = 64"
  shows "Update (SHA256_new raw) data =
           \<lparr>state = fips_H0, count = 33, buffer = data @ drop 33 raw, transformed = []\<rparr>"
  using assms
  by (simp add: Update_def SHA256_new_def Init_def memcpy_at_def fips_H0_def Let_def)

lemma store_length_264:
  assumes "length buf = 64"
  shows "store_length buf 264 = take 56 buf @ [0, 0, 0, 0, 0, 0, 0x01, 0x08]"
proof (rule nth_equalityI)
  show "length (store_length buf 264) = length (take 56 buf @ [0, 0, 0, 0, 0, 0, 0x01, 0x08])"
    using assms by (simp add: store_length_def length_step_def)
next
  fix i assume "i < length (store_length buf 264)"
  then have i: "i < 64" using assms by (simp add: store_length_def length_step_def)
  then consider "i < 56" | "i = 56" | "i = 57" | "i = 58" | "i = 59" | "i = 60" | "i = 61"
    | "i = 62" | "i = 63" by linarith
  then show "store_length buf 264 ! i = (take 56 buf @ [0, 0, 0, 0, 0, 0, 0x01, 0x08]) ! i"
    using assms by cases (simp_all add: store_length_def length_step_def nth_append)
qed

lemma final_buffer:
  assumes "length data = 33" "length t = 31"
  shows "store_length (memset_at ((data @ t)[33 := 0x80]) 34 0 22) 264 = padding_module data"
proof -
  have t: "t \<noteq> []" using assms by auto
  have "(data @ t)[33 := 0x80] = data @ t[0 := 0x80]"
    using assms by (simp add: list_update_append)
  then have "memset_at ((data @ t)[33 := 0x80]) 34 0 22
               = data @ [0x80] @ replicate 22 0 @ drop 23 t"
    using assms t by (cases t) (simp_all add: memset_at_def)
  then show ?thesis
    using assms by (simp add: store_length_264 padding_module_def)
qed

lemma Final_33:
  assumes "length data = 33" "length t = 31" "length H = 8"
  shows "Final \<lparr>state = H, count = 33, buffer = data @ t, transformed = tr\<rparr> =
          (let s = Transform \<lparr>state = H, count = 33, buffer = padding_module data, transformed = tr\<rparr>
                    (padding_module data)
           in (s, concat (map (\<lambda>i. store_be32 (state s ! i)) [0..<8])))"
  using final_buffer [OF assms(1,2)]
  by (simp add: Final_def Let_def)

declare fips_parse.simps [simp del]

lemma length_padding_module: "length r = 33 \<Longrightarrow> length (padding_module r) = 64"
  by (simp add: padding_module_def)

lemma be_bytes_264: "be_bytes 8 264 = [0, 0, 0, 0, 0, 0, 0x01, 0x08]"
  by (simp add: be_bytes_def upt_rec)

lemma fips_pad_33: "length data = 33 \<Longrightarrow> fips_pad data = padding_module data"
  by (simp add: fips_pad_def padding_module_def be_bytes_264)

lemma fips_parse_one: "length B = 64 \<Longrightarrow> fips_parse B = [B]"
  by (subst fips_parse.simps, subst fips_parse.simps) simp

lemma fips_sha256_33: "length data = 33 \<Longrightarrow> fips_sha256 data = lane_program data"
  by (simp add: fips_sha256_def lane_program_def fips_pad_33 fips_parse_one length_padding_module)

lemma length_fips_compress: "length H = 8 \<Longrightarrow> length (fips_compress H M) = 8"
  by (simp add: fips_compress_def list_of_regs_def split: prod.splits)

lemma map_nth_upt: "length xs = n \<Longrightarrow> map (\<lambda>i. f (xs ! i)) [0..<n] = map f xs"
  by (auto intro: nth_equalityI)

lemma store_be32_fun: "store_be32 = (\<lambda>w. be_bytes 4 (unat w))"
  by (rule ext) (rule store_be32_bytes)

lemma Hash_33:
  assumes "length data = 33" "length raw = 64"
  shows "Hash raw data = lane_program data"
proof -
  let ?init = "\<lparr>state = fips_H0, count = 33, buffer = padding_module data, transformed = []\<rparr>"
  let ?s = "Transform ?init (padding_module data)"
  have H: "length fips_H0 = 8" by (simp add: fips_H0_def)
  have st: "state ?s = fips_compress fips_H0 (padding_module data)"
    using Transform_compress [of ?init "padding_module data"] H assms
    by (simp add: length_padding_module)
  then have len: "length (state ?s) = 8" using H by (simp add: length_fips_compress)
  have "Hash raw data = concat (map (\<lambda>i. store_be32 (state ?s ! i)) [0..<8])"
    using assms H Final_33 [of data "drop 33 raw" fips_H0 "[]"]
    by (simp add: Hash_def Update_33 Let_def)
  also have "map (\<lambda>i. store_be32 (state ?s ! i)) [0..<8] = map store_be32 (state ?s)"
    using len by (rule map_nth_upt)
  finally show ?thesis
    by (simp add: st lane_program_def store_be32_fun)
qed

lemma test_Transform:
  "state (Transform \<lparr>state = fips_H0, count = c, buffer = b, transformed = tr\<rparr> test_block)
     = [0x0f715baf, 0x5d4c2ed3, 0x29785cef, 0x29e562f7, 0x3488c8a2, 0xbb9dbc57, 0x00b361d5, 0x4b9b0554]"
  by (simp add: Transform_eq test_schedule regs_of_def fips_H0_def test_rounds)

lemma test_Hash: 
  assumes "length raw = 64"
  shows "Hash raw test_pubkey = test_digest"
proof -
  have l: "length test_pubkey = 33" by (simp add: test_pubkey_def)
  have H: "length fips_H0 = 8" by (simp add: fips_H0_def)
  have "Hash raw test_pubkey = concat (map (\<lambda>i. store_be32 (
      state (Transform \<lparr>state = fips_H0, count = 33, buffer = test_block, transformed = []\<rparr> test_block) ! i)) [0..<8])"
    using assms l H Final_33 [of test_pubkey "drop 33 raw" fips_H0 "[]"]
    by (simp add: Hash_def Update_33 Let_def test_block_def)
  also have "\<dots> = test_digest"
    unfolding test_Transform
    by (simp add: upt_rec store_be32_def test_digest_def)
  finally show ?thesis .
qed

subsection \<open>The claims about the reference engine\<close>

lemma unat_add4: "unat (a + b + c + d :: u32) = (unat a + unat b + unat c + unat d) mod 2 ^ 32"
  by (simp add: unat_word_ariths mod_simps)

lemma length_list_of_regs: "length (list_of_regs r) = 8"
  by (simp add: list_of_regs_def split: prod.splits)

text \<open>
  Claim C1. For every input of exactly 33 bytes, \<open>SHA256::Hash\<close> returns the SHA-256 digest of
  those bytes as FIPS 180-4 defines it, whatever the buffer of the fresh object held; the
  lane program of the specification returns the same digest; and for the test vector
  \<^verbatim>\<open>0279be66...16f81798\<close> the 32 bytes are \<^verbatim>\<open>0f715baf...4b9b0554\<close>.
\<close>

theorem reference_digest_is_fips_sha256:
  assumes "length data = 33" and "length raw = 64"
  shows "Hash raw data = fips_sha256 data
       \<and> lane_program data = fips_sha256 data
       \<and> Hash raw test_pubkey = test_digest"
  using assms by (simp add: Hash_33 fips_sha256_33 test_Hash)

theorem reference_digest_is_fips_sha256_witness:
  "length test_pubkey = 33 \<and> length (replicate 64 (0::u8)) = 64
     \<and> Hash (replicate 64 0) test_pubkey = fips_sha256 test_pubkey
     \<and> fips_sha256 test_pubkey = test_digest"
proof -
  have l: "length test_pubkey = 33" by (simp add: test_pubkey_def)
  have r: "length (replicate 64 (0::u8)) = 64" by simp
  from reference_digest_is_fips_sha256 [OF l r] l r show ?thesis by auto
qed

text \<open>
  Claim C3. For every 33-byte message, \<open>Update\<close> followed by \<open>Final\<close> applies \<open>Transform\<close>
  exactly once, to one 64-byte block: bytes 0 to 32 are the message, byte 33 is \<open>0x80\<close>,
  bytes 34 to 55 are zero, and bytes 56 to 63 are the big-endian 64-bit encoding of 264.
\<close>

theorem single_padded_block:
  assumes "length data = 33" and "length raw = 64"
  shows "\<exists>B. transformed (fst (Final (Update (SHA256_new raw) data))) = [B]
           \<and> B = data @ [0x80] @ replicate 22 0 @ [0, 0, 0, 0, 0, 0, 0x01, 0x08]
           \<and> length B = 64
           \<and> take 33 B = data
           \<and> B ! 33 = 0x80
           \<and> (\<forall>i\<in>{34..55}. B ! i = 0)
           \<and> drop 56 B = be_bytes 8 264"
proof -
  let ?B = "data @ [0x80] @ replicate 22 0 @ [0, 0, 0, 0, 0, 0, 0x01, 0x08]"
  have H: "length fips_H0 = 8" by (simp add: fips_H0_def)
  have "transformed (fst (Final (Update (SHA256_new raw) data))) = [?B]"
    using assms H Final_33 [of data "drop 33 raw" fips_H0 "[]"]
    by (simp add: Update_33 Let_def Transform_eq padding_module_def)
  moreover have "\<forall>i\<in>{34..55}. ?B ! i = 0"
    using assms by (auto simp: nth_append nth_Cons')
  ultimately show ?thesis
    using assms by (simp add: be_bytes_264 nth_append)
qed

theorem single_padded_block_witness:
  "length test_pubkey = 33 \<and> length (replicate 64 (0::u8)) = 64
     \<and> transformed (fst (Final (Update (SHA256_new (replicate 64 0)) test_pubkey)))
         = [test_pubkey @ [0x80] @ replicate 22 0 @ [0, 0, 0, 0, 0, 0, 0x01, 0x08]]
     \<and> (34::nat) \<in> {34..55}"
proof -
  have l: "length test_pubkey = 33" by (simp add: test_pubkey_def)
  have r: "length (replicate 64 (0::u8)) = 64" by simp
  from single_padded_block [OF l r] l r show ?thesis by auto
qed

text \<open>
  Claim C4. For every 64-byte block, the array \<open>m\<close> that \<open>Transform\<close> builds has 64 words;
  word \<open>i\<close> below 16 is the big-endian value of bytes \<open>4i\<close> to \<open>4i + 3\<close> of the block; and for
  every \<open>i\<close> from 16 to 63, \<open>W[i] = \<sigma>1(W[i-2]) + W[i-7] + \<sigma>0(W[i-15]) + W[i-16]\<close> modulo
  \<open>2^32\<close>, on the final contents of the array (no slot is written twice). For the padded
  block of the test vector, \<open>W[16] = 0x1085d5f6\<close> and \<open>W[17] = 0x38699114\<close>.
\<close>

theorem message_schedule_recurrence:
  assumes "length block = 64"
  shows "length (message_schedule block) = 64
       \<and> (\<forall>i<16. message_schedule block ! i = of_nat (be_nat (take 4 (drop (4 * i) block))))
       \<and> (\<forall>i\<in>{16..<64}.
            message_schedule block ! i =
              sigma1 (message_schedule block ! (i - 2)) + message_schedule block ! (i - 7)
              + sigma0 (message_schedule block ! (i - 15)) + message_schedule block ! (i - 16)
          \<and> unat (message_schedule block ! i) =
              (unat (sigma1 (message_schedule block ! (i - 2))) + unat (message_schedule block ! (i - 7))
               + unat (sigma0 (message_schedule block ! (i - 15))) + unat (message_schedule block ! (i - 16)))
              mod 2 ^ 32)
       \<and> message_schedule (test_pubkey @ [0x80] @ replicate 22 0 @ [0, 0, 0, 0, 0, 0, 0x01, 0x08]) ! 16
            = 0x1085d5f6
       \<and> message_schedule (test_pubkey @ [0x80] @ replicate 22 0 @ [0, 0, 0, 0, 0, 0, 0x01, 0x08]) ! 17
            = 0x38699114"
proof -
  let ?W = "message_schedule block"
  have low: "\<forall>i<16. ?W ! i = of_nat (be_nat (take 4 (drop (4 * i) block)))"
    using assms by (simp add: message_schedule_low load_be32_nat)
  have rec: "?W ! i = sigma1 (?W ! (i - 2)) + ?W ! (i - 7) + sigma0 (?W ! (i - 15)) + ?W ! (i - 16)"
    if "i \<in> {16..<64}" for i
    using that message_schedule_high [of i block]
    by (simp add: extend_rhs_def SIG0_sigma0 SIG1_sigma1)
  have "unat (?W ! i) = (unat (sigma1 (?W ! (i - 2))) + unat (?W ! (i - 7))
               + unat (sigma0 (?W ! (i - 15))) + unat (?W ! (i - 16))) mod 2 ^ 32"
    if "i \<in> {16..<64}" for i
    by (subst rec [OF that]) (rule unat_add4)
  moreover have "message_schedule test_block ! 16 = 0x1085d5f6"
    "message_schedule test_block ! 17 = 0x38699114"
    by (simp_all add: test_schedule test_W_def)
  ultimately show ?thesis
    using low rec by (simp add: length_message_schedule test_block_def padding_module_def)
qed

theorem message_schedule_recurrence_witness:
  "length (test_pubkey @ [0x80] @ replicate 22 0 @ [0, 0, 0, 0, 0, 0, 0x01, 0x08]) = 64
     \<and> (0::nat) < 16 \<and> (16::nat) \<in> {16..<64}
     \<and> message_schedule (test_pubkey @ [0x80] @ replicate 22 0 @ [0, 0, 0, 0, 0, 0, 0x01, 0x08]) ! 16
          = 0x1085d5f6"
proof -
  have l: "length (test_pubkey @ [0x80] @ replicate 22 0 @ [0, 0, 0, 0, 0, 0, 0x01, 0x08]) = 64"
    by (simp add: test_pubkey_def)
  from message_schedule_recurrence [OF l] l show ?thesis by simp
qed

text \<open>
  Claim C5. For every 64-byte block and 8-word hash state, \<open>Transform\<close> starts the working
  variables from the hash state, runs the 64 rounds \<open>T1 = h + \<Sigma>1(e) + Ch(e,f,g) + K[i] + W[i]\<close>,
  \<open>T2 = \<Sigma>0(a) + Maj(a,b,c)\<close> with the shift of the eight variables, and adds the result
  word by word into the hash state, modulo \<open>2^32\<close>. It changes neither \<open>count\<close> nor \<open>buffer\<close>,
  and the new hash state depends on the old one and the block only.
\<close>

theorem compression_function:
  assumes "length (state s) = 8" and "length block = 64"
  shows "Transform s block =
           s\<lparr>state := map2 (+) (state s)
                (list_of_regs (fips_rounds (\<lambda>i. message_schedule block ! i) 64 (regs_of (state s)))),
             transformed := transformed s @ [block]\<rparr>
       \<and> (\<forall>j<8. unat (state (Transform s block) ! j) =
             (unat (state s ! j)
              + unat (list_of_regs (fips_rounds (\<lambda>i. message_schedule block ! i) 64
                                      (regs_of (state s))) ! j)) mod 2 ^ 32)
       \<and> count (Transform s block) = count s
       \<and> buffer (Transform s block) = buffer s"
proof -
  let ?R = "list_of_regs (fips_rounds (\<lambda>i. message_schedule block ! i) 64 (regs_of (state s)))"
  have T: "Transform s block =
      s\<lparr>state := map2 (+) (state s) ?R, transformed := transformed s @ [block]\<rparr>"
    using assms by (simp add: Transform_fips)
  have "unat (state (Transform s block) ! j) = (unat (state s ! j) + unat (?R ! j)) mod 2 ^ 32"
    if "j < 8" for j
    using that assms(1) by (simp add: T length_list_of_regs unat_word_ariths)
  then show ?thesis using T by simp
qed

theorem compression_function_witness:
  "length (state (SHA256_new [])) = 8
     \<and> length (test_pubkey @ [0x80] @ replicate 22 0 @ [0, 0, 0, 0, 0, 0, 0x01, 0x08]) = 64
     \<and> (0::nat) < 8
     \<and> count (Transform (SHA256_new [])
                (test_pubkey @ [0x80] @ replicate 22 0 @ [0, 0, 0, 0, 0, 0, 0x01, 0x08])) = 0"
proof -
  have s: "length (state (SHA256_new [])) = 8" by (simp add: SHA256_new_def Init_def)
  have l: "length (test_pubkey @ [0x80] @ replicate 22 0 @ [0, 0, 0, 0, 0, 0, 0x01, 0x08]) = 64"
    by (simp add: test_pubkey_def)
  from compression_function [OF s l] s l show ?thesis
    by (simp add: SHA256_new_def Init_def)
qed

section \<open>Properties of the batch dispatcher\<close>

subsection \<open>The driver calls\<close>

lemma le_fold_max: "x \<in> set xs \<Longrightarrow> x \<le> fold max xs (a::nat)"
proof (induction xs arbitrary: a)
  case Nil then show ?case by simp
next
  case (Cons y ys)
  have mono: "b \<le> fold max ys b" for b :: nat
    by (induction ys arbitrary: b) (auto intro: order_trans [OF max.cobounded2])
  from Cons show ?case
    by (auto intro: order_trans [OF max.cobounded1 mono])
qed

lemma fresh_ptr_fresh: "fresh_ptr d \<notin> fst ` set (allocations d)"
proof
  assume "fresh_ptr d \<in> fst ` set (allocations d)"
  then have "fresh_ptr d \<in> set (map fst (allocations d))" by simp
  then have "fresh_ptr d \<le> fold max (map fst (allocations d)) 0" by (rule le_fold_max)
  then show False by (simp add: fresh_ptr_def)
qed

lemma length_fresh_bytes: "length (fresh_bytes d p n) = n"
  by (simp add: fresh_bytes_def)

lemma nth_fresh_bytes: "k < n \<Longrightarrow> fresh_bytes d p n ! k = uninit d p k"
  by (simp add: fresh_bytes_def)

lemma fresh_bytes_cong: "uninit d' = uninit d \<Longrightarrow> fresh_bytes d' p n = fresh_bytes d p n"
  by (simp add: fresh_bytes_def)

lemma next_result_frame:
  "next_result d = (r, d') \<Longrightarrow>
     allocations d' = allocations d \<and> uninit d' = uninit d \<and> calls d' = calls d
     \<and> (pending d = [] \<longrightarrow> pending d' = [] \<and> r = CUDA_SUCCESS)"
  by (auto simp: next_result_def split: list.splits)


lemma cuMemAlloc_fail:
  assumes "cuMemAlloc d n = (r, p, d')" "r \<noteq> CUDA_SUCCESS"
  shows "allocations d' = allocations d \<and> uninit d' = uninit d \<and> (n = 0 \<or> pending d \<noteq> [])
       \<and> (pending d = [] \<longrightarrow> pending d' = [])"
proof -
  obtain r0 d0 where nr: "next_result d = (r0, d0)" by (cases "next_result d")
  note fr = next_result_frame [OF nr]
  show ?thesis
    using assms fr by (auto simp: nr cuMemAlloc_def logged_def Let_def split: if_splits prod.splits)
qed

lemma cuMemAlloc_ok:
  assumes "cuMemAlloc d n = (CUDA_SUCCESS, p, d')"
  shows "0 < n \<and> p = fresh_ptr d
       \<and> allocations d' = (p, fresh_bytes d p n) # allocations d
       \<and> uninit d' = uninit d \<and> (pending d = [] \<longrightarrow> pending d' = [])"
proof -
  obtain r0 d0 where nr: "next_result d = (r0, d0)" by (cases "next_result d")
  note fr = next_result_frame [OF nr]
  show ?thesis
    using assms fr by (auto simp: nr cuMemAlloc_def logged_def Let_def fresh_ptr_def fresh_bytes_def split: if_splits prod.splits)
qed

lemma cuMemFree_allocations:
  "allocations (cuMemFree d p) = filter (\<lambda>(q, c). q \<noteq> p) (allocations d)"
  by (simp add: cuMemFree_def logged_def)

lemma cuMemFree_frame: "uninit (cuMemFree d p) = uninit d \<and> pending (cuMemFree d p) = pending d"
  by (simp add: cuMemFree_def logged_def)

lemma filter_absent: "p \<notin> fst ` set xs \<Longrightarrow> filter (\<lambda>(q, c). q \<noteq> p) xs = xs"
  by (induction xs) auto

lemma store_absent:
  "p \<notin> fst ` set xs \<Longrightarrow> map (\<lambda>(q, c). if q = p then (q, b) else (q, c)) xs = xs"
  by (induction xs) auto

lemma cuMemcpyHtoD_fail:
  assumes "cuMemcpyHtoD d dst src n = (r, d')" "r \<noteq> CUDA_SUCCESS"
  shows "allocations d' = allocations d \<and> uninit d' = uninit d
       \<and> (pending d \<noteq> [] \<or> map_of (allocations d) dst = None
            \<or> (\<exists>buf. map_of (allocations d) dst = Some buf \<and> length buf < n))
       \<and> (pending d = [] \<longrightarrow> pending d' = [])"
proof -
  obtain r0 d0 where nr: "next_result d = (r0, d0)" by (cases "next_result d")
  note fr = next_result_frame [OF nr]
  show ?thesis
    using assms fr by (auto simp: nr cuMemcpyHtoD_def logged_def Let_def split: if_splits prod.splits option.splits)
qed

lemma cuMemcpyHtoD_ok:
  assumes "cuMemcpyHtoD d dst src n = (CUDA_SUCCESS, d')"
  shows "\<exists>buf. map_of (allocations d) dst = Some buf
       \<and> allocations d' = map (\<lambda>(q, c). if q = dst then (q, overwrite buf (take n src)) else (q, c))
                             (allocations d)
       \<and> uninit d' = uninit d \<and> (pending d = [] \<longrightarrow> pending d' = [])"
proof -
  obtain r0 d0 where nr: "next_result d = (r0, d0)" by (cases "next_result d")
  note fr = next_result_frame [OF nr]
  show ?thesis
    using assms fr by (auto simp: nr cuMemcpyHtoD_def logged_def store_buf_def Let_def
           split: if_splits prod.splits option.splits)
qed

lemma cuLaunchKernel_fail:
  assumes "cuLaunchKernel d f g b d_in d_out N = (r, d')" "r \<noteq> CUDA_SUCCESS"
  shows "allocations d' = allocations d \<and> uninit d' = uninit d
       \<and> (pending d \<noteq> [] \<or> g = 0 \<or> b = 0)
       \<and> (pending d = [] \<longrightarrow> pending d' = [])"
proof -
  obtain r0 d0 where nr: "next_result d = (r0, d0)" by (cases "next_result d")
  note fr = next_result_frame [OF nr]
  show ?thesis
    using assms fr by (auto simp: nr cuLaunchKernel_def logged_def Let_def split: if_splits prod.splits)
qed

lemma cuLaunchKernel_ok:
  assumes "cuLaunchKernel d f g b d_in d_out N = (CUDA_SUCCESS, d')"
    and "map_of (allocations d) d_in = Some inp" "map_of (allocations d) d_out = Some out"
  shows "0 < g \<and> 0 < b
       \<and> allocations d' = map (\<lambda>(q, c). if q = d_out then (q, overwrite out (f inp out N (g * b)))
                                         else (q, c)) (allocations d)
       \<and> uninit d' = uninit d \<and> (pending d = [] \<longrightarrow> pending d' = [])"
proof -
  obtain r0 d0 where nr: "next_result d = (r0, d0)" by (cases "next_result d")
  note fr = next_result_frame [OF nr]
  show ?thesis
    using assms fr by (auto simp: nr cuLaunchKernel_def logged_def store_buf_def Let_def
           split: if_splits prod.splits)
qed

lemma cuCtxSynchronize_frame:
  assumes "cuCtxSynchronize d = (r, d')"
  shows "allocations d' = allocations d \<and> uninit d' = uninit d
       \<and> (pending d = [] \<longrightarrow> pending d' = [] \<and> r = CUDA_SUCCESS)"
proof -
  obtain r0 d0 where nr: "next_result d = (r0, d0)" by (cases "next_result d")
  note fr = next_result_frame [OF nr]
  show ?thesis
    using assms fr by (auto simp: nr cuCtxSynchronize_def logged_def Let_def split: prod.splits)
qed

lemma cuMemcpyDtoH_fail:
  assumes "cuMemcpyDtoH d dst src n = (r, dst', d')" "r \<noteq> CUDA_SUCCESS"
  shows "dst' = dst \<and> allocations d' = allocations d \<and> uninit d' = uninit d
       \<and> (pending d \<noteq> [] \<or> map_of (allocations d) src = None
            \<or> (\<exists>buf. map_of (allocations d) src = Some buf \<and> length buf < n))
       \<and> (pending d = [] \<longrightarrow> pending d' = [])"
proof -
  obtain r0 d0 where nr: "next_result d = (r0, d0)" by (cases "next_result d")
  note fr = next_result_frame [OF nr]
  show ?thesis
    using assms fr by (auto simp: nr cuMemcpyDtoH_def logged_def Let_def split: if_splits prod.splits option.splits)
qed

lemma cuMemcpyDtoH_ok:
  assumes "cuMemcpyDtoH d dst src n = (CUDA_SUCCESS, dst', d')"
  shows "\<exists>buf. map_of (allocations d) src = Some buf \<and> dst' = overwrite dst (take n buf)
       \<and> allocations d' = allocations d \<and> uninit d' = uninit d
       \<and> (pending d = [] \<longrightarrow> pending d' = [])"
proof -
  obtain r0 d0 where nr: "next_result d = (r0, d0)" by (cases "next_result d")
  note fr = next_result_frame [OF nr]
  show ?thesis
    using assms fr by (auto simp: nr cuMemcpyDtoH_def logged_def Let_def split: if_splits prod.splits option.splits)
qed

subsection \<open>The requests made\<close>

lemma next_result_calls: "next_result d = (r, d') \<Longrightarrow> calls d' = calls d"
  by (auto simp: next_result_def split: list.splits)

lemma cuMemAlloc_calls:
  assumes "cuMemAlloc d n = (r, p, d')"
  shows "calls d' = calls d @ [(MemAlloc n, r)]"
proof -
  obtain r0 d0 where nr: "next_result d = (r0, d0)" by (cases "next_result d")
  show ?thesis
    using assms next_result_calls [OF nr]
    by (auto simp: nr cuMemAlloc_def logged_def Let_def split: if_splits)
qed

lemma cuMemFree_calls:
  "calls (cuMemFree d p) =
     calls d @ [(MemFree p, if p \<in> fst ` set (allocations d) then CUDA_SUCCESS
                            else CUDA_ERROR_INVALID_VALUE)]"
  by (simp add: cuMemFree_def logged_def)

lemma cuMemcpyHtoD_calls:
  assumes "cuMemcpyHtoD d dst src n = (r, d')"
  shows "calls d' = calls d @ [(MemcpyHtoD dst n, r)]"
proof -
  obtain r0 d0 where nr: "next_result d = (r0, d0)" by (cases "next_result d")
  show ?thesis
    using assms next_result_calls [OF nr]
    by (auto simp: nr cuMemcpyHtoD_def logged_def store_buf_def Let_def
             split: if_splits option.splits)
qed

lemma cuLaunchKernel_calls:
  assumes "cuLaunchKernel d f g b d_in d_out N = (r, d')"
  shows "calls d' = calls d @ [(LaunchKernel g b, r)]"
proof -
  obtain r0 d0 where nr: "next_result d = (r0, d0)" by (cases "next_result d")
  show ?thesis
    using assms next_result_calls [OF nr]
    by (auto simp: nr cuLaunchKernel_def logged_def store_buf_def Let_def
             split: if_splits option.splits)
qed

lemma cuCtxSynchronize_calls:
  assumes "cuCtxSynchronize d = (r, d')"
  shows "calls d' = calls d @ [(CtxSynchronize, r)]"
proof -
  obtain r0 d0 where nr: "next_result d = (r0, d0)" by (cases "next_result d")
  show ?thesis
    using assms next_result_calls [OF nr]
    by (auto simp: nr cuCtxSynchronize_def logged_def Let_def)
qed

lemma cuMemcpyDtoH_calls:
  assumes "cuMemcpyDtoH d dst src n = (r, dst', d')"
  shows "calls d' = calls d @ [(MemcpyDtoH src n, r)]"
proof -
  obtain r0 d0 where nr: "next_result d = (r0, d0)" by (cases "next_result d")
  show ?thesis
    using assms next_result_calls [OF nr]
    by (auto simp: nr cuMemcpyDtoH_def logged_def Let_def split: if_splits option.splits)
qed

lemma calls_step:
  assumes "\<exists>xs. calls a = base @ x # xs" "calls b = calls a @ [c]"
  shows "\<exists>xs. calls b = base @ x # xs"
  using assms by auto

subsection \<open>Every path through \<open>hash_batch\<close>\<close>

lemma frees_restore:
  assumes "allocations dk = (p2, x) # (p1, y) # A" "p1 \<notin> fst ` set A" "p2 \<notin> fst ` set A" "p1 \<noteq> p2"
  shows "allocations (cuMemFree (cuMemFree dk p1) p2) = A"
  using assms by (simp add: cuMemFree_allocations filter_absent)

lemma fold_max_bound: "\<forall>x\<in>set xs. x \<le> a \<Longrightarrow> fold max xs (a::nat) = a"
  by (induction xs) (simp_all add: max_absorb2)

lemma fresh_ptr_next:
  assumes "allocations d1 = (fresh_ptr d, x) # allocations d"
  shows "fresh_ptr d1 = Suc (fresh_ptr d)"
proof -
  have "\<forall>q\<in>set (map fst (allocations d)). q \<le> fresh_ptr d"
    using le_fold_max [of _ "map fst (allocations d)" 0] by (auto simp: fresh_ptr_def le_Suc_eq)
  then have "fold max (map fst (allocations d)) (fresh_ptr d) = fresh_ptr d"
    by (rule fold_max_bound)
  then show ?thesis using assms by (simp add: fresh_ptr_def [of d1])
qed

lemma hash_batch_paths:
  fixes e :: PTX_SHA256 and d :: device and h_input h_output :: "u8 list" and N :: u32
  assumes init: "initialized e"
  defines "r \<equiv> hash_batch e d h_input h_output N"
  defines "isz \<equiv> input_size N" and "osz \<equiv> output_size N" and "bl \<equiv> blocks N"
  shows "allocations (device_after r) = allocations d
       \<and> uninit (device_after r) = uninit d
       \<and> (pending d = [] \<longrightarrow> pending (device_after r) = [])
       \<and> (\<exists>res rest. calls (device_after r) = calls d @ (MemAlloc isz, res) # rest)
       \<and> ((\<not> returned r \<and> host_output r = h_output \<and> cerr r \<noteq> []
            \<and> (pending d \<noteq> [] \<or> isz = 0 \<or> osz = 0 \<or> bl = 0))
          \<or> (returned r \<and> cerr r = [] \<and> 0 < isz \<and> 0 < osz \<and> 0 < bl
              \<and> host_output r =
                    overwrite h_output (take osz
                      (overwrite (fresh_bytes d (Suc (fresh_ptr d)) osz)
                         (kernel e (overwrite (fresh_bytes d (fresh_ptr d) isz) (take isz h_input))
                                   (fresh_bytes d (Suc (fresh_ptr d)) osz) N (bl * 128))))))"
proof -
  note fr = cuMemFree_frame
  obtain r1 p1 d1 where a1: "cuMemAlloc d isz = (r1, p1, d1)" by (cases "cuMemAlloc d isz")
  have c1: "\<exists>xs. calls d1 = calls d @ (MemAlloc isz, r1) # xs"
    using cuMemAlloc_calls [OF a1] by simp
  note free2 = calls_step [OF calls_step [OF _ cuMemFree_calls] cuMemFree_calls]
  show ?thesis
  proof (cases "r1 = CUDA_SUCCESS")
    case False
    with a1 init have "r = failed ''Failed to allocate input memory'' h_output d1"
      by (simp add: r_def hash_batch_def isz_def [symmetric] osz_def [symmetric] Let_def)
    with cuMemAlloc_fail [OF a1 False] c1 show ?thesis by (auto simp: failed_def)
  next
    case ok1: True
    note A1 = cuMemAlloc_ok [OF a1 [unfolded ok1]]
    define in0 where "in0 = fresh_bytes d p1 isz"
    have al1: "allocations d1 = (p1, in0) # allocations d" and un1: "uninit d1 = uninit d"
      and p1: "p1 \<notin> fst ` set (allocations d)" and isz: "0 < isz"
      and pe1: "pending d = [] \<Longrightarrow> pending d1 = []" and q1: "p1 = fresh_ptr d"
      using A1 fresh_ptr_fresh [of d] by (simp_all add: in0_def)
    obtain r2 p2 d2 where a2: "cuMemAlloc d1 osz = (r2, p2, d2)" by (cases "cuMemAlloc d1 osz")
    note c2 = calls_step [OF c1 cuMemAlloc_calls [OF a2]]
    show ?thesis
    proof (cases "r2 = CUDA_SUCCESS")
      case False
      with a1 a2 ok1 init have "r = failed ''Failed to allocate output memory'' h_output (cuMemFree d2 p1)"
        by (simp add: r_def hash_batch_def isz_def [symmetric] osz_def [symmetric] Let_def)
      moreover have "allocations (cuMemFree d2 p1) = allocations d"
        using cuMemAlloc_fail [OF a2 False] al1 p1 by (simp add: cuMemFree_allocations filter_absent)
      ultimately show ?thesis
        using cuMemAlloc_fail [OF a2 False] pe1 un1 calls_step [OF c2 cuMemFree_calls, of p1]
        by (auto simp: failed_def fr)
    next
      case ok2: True
      note A2 = cuMemAlloc_ok [OF a2 [unfolded ok2]]
      define out0 where "out0 = fresh_bytes d p2 osz"
      have al2: "allocations d2 = (p2, out0) # (p1, in0) # allocations d"
        and un2: "uninit d2 = uninit d" and osz: "0 < osz"
        and pe2: "pending d = [] \<Longrightarrow> pending d2 = []"
        using A2 al1 un1 pe1 by (simp_all add: out0_def fresh_bytes_cong [OF un1])
      have q2: "p2 = Suc (fresh_ptr d)" using A2 fresh_ptr_next [OF al1 [unfolded q1]] by simp
      have "p2 \<notin> fst ` set (allocations d1)" using A2 fresh_ptr_fresh [of d1] by simp
      then have p2: "p2 \<notin> fst ` set (allocations d)" and ne: "p1 \<noteq> p2"
        using al1 by auto
      note restore = frees_restore [OF _ p1 p2 ne]
      obtain r3 d3 where a3: "cuMemcpyHtoD d2 p1 h_input isz = (r3, d3)"
        by (cases "cuMemcpyHtoD d2 p1 h_input isz")
      note c3 = calls_step [OF c2 cuMemcpyHtoD_calls [OF a3]]
      have look1: "map_of (allocations d2) p1 = Some in0" using al2 ne by simp
      show ?thesis
      proof (cases "r3 = CUDA_SUCCESS")
        case False
        with a1 a2 a3 ok1 ok2 init
        have "r = failed ''Failed to copy input to device'' h_output (cuMemFree (cuMemFree d3 p1) p2)"
          by (simp add: r_def hash_batch_def isz_def [symmetric] osz_def [symmetric] Let_def)
        moreover have "allocations d3 = allocations d2" "uninit d3 = uninit d"
          using cuMemcpyHtoD_fail [OF a3 False] un2 by simp_all
        moreover have "pending d \<noteq> []"
          using cuMemcpyHtoD_fail [OF a3 False] look1 pe2 by (auto simp: in0_def length_fresh_bytes)
        ultimately show ?thesis using restore [of d3] al2 free2 [OF c3, of p1 p2]
          by (auto simp: failed_def fr)
      next
        case ok3: True
        note A3 = cuMemcpyHtoD_ok [OF a3 [unfolded ok3]]
        define in1 where "in1 = overwrite in0 (take isz h_input)"
        have al3: "allocations d3 = (p2, out0) # (p1, in1) # allocations d"
          and un3: "uninit d3 = uninit d" and pe3: "pending d = [] \<Longrightarrow> pending d3 = []"
          using A3 look1 al2 un2 pe2 ne p1 by (auto simp: in1_def store_absent)
        have look3: "map_of (allocations d3) p1 = Some in1" "map_of (allocations d3) p2 = Some out0"
          using al3 ne by simp_all
        obtain r4 d4 where a4: "cuLaunchKernel d3 (kernel e) bl 128 p1 p2 N = (r4, d4)"
          by (cases "cuLaunchKernel d3 (kernel e) bl 128 p1 p2 N")
        note c4 = calls_step [OF c3 cuLaunchKernel_calls [OF a4]]
        show ?thesis
        proof (cases "r4 = CUDA_SUCCESS")
          case False
          with a1 a2 a3 a4 ok1 ok2 ok3 init
          have "r = failed ''Failed to launch kernel'' h_output (cuMemFree (cuMemFree d4 p1) p2)"
            by (simp add: r_def hash_batch_def isz_def [symmetric] osz_def [symmetric]
                  bl_def [symmetric] Let_def)
          moreover have "allocations d4 = allocations d3" and "uninit d4 = uninit d"
            and "pending d \<noteq> [] \<or> bl = 0" and "pending d = [] \<Longrightarrow> pending d4 = []"
            using cuLaunchKernel_fail [OF a4 False] pe3 un3 by auto
          ultimately show ?thesis using restore [of d4] al3 free2 [OF c4, of p1 p2]
            by (auto simp: failed_def fr)
        next
          case ok4: True
          note A4 = cuLaunchKernel_ok [OF a4 [unfolded ok4] look3]
          define out1 where "out1 = overwrite out0 (kernel e in1 out0 N (bl * 128))"
          have al4: "allocations d4 = (p2, out1) # (p1, in1) # allocations d"
            and un4: "uninit d4 = uninit d" and bl: "0 < bl"
            and pe4: "pending d = [] \<Longrightarrow> pending d4 = []"
            using A4 al3 un3 pe3 ne p2 by (auto simp: out1_def store_absent)
          obtain r5 d5 where a5: "cuCtxSynchronize d4 = (r5, d5)" by (cases "cuCtxSynchronize d4")
          note A5 = cuCtxSynchronize_frame [OF a5]
          note c5 = calls_step [OF c4 cuCtxSynchronize_calls [OF a5]]
          have al5: "allocations d5 = (p2, out1) # (p1, in1) # allocations d"
            and un5: "uninit d5 = uninit d" and pe5: "pending d = [] \<Longrightarrow> pending d5 = []"
            using A5 al4 un4 pe4 by simp_all
          show ?thesis
          proof (cases "r5 = CUDA_SUCCESS")
            case False
            with a1 a2 a3 a4 a5 ok1 ok2 ok3 ok4 init
            have "r = failed ''Kernel execution failed'' h_output (cuMemFree (cuMemFree d5 p1) p2)"
              by (simp add: r_def hash_batch_def isz_def [symmetric] osz_def [symmetric]
                    bl_def [symmetric] Let_def)
            moreover have "pending d \<noteq> []" using A5 False pe4 by auto
            ultimately show ?thesis using restore [of d5] al5 un5 free2 [OF c5, of p1 p2]
              by (auto simp: failed_def fr)
          next
            case ok5: True
            obtain r6 h' d6 where a6: "cuMemcpyDtoH d5 h_output p2 osz = (r6, h', d6)"
              by (cases "cuMemcpyDtoH d5 h_output p2 osz")
            note c6 = calls_step [OF c5 cuMemcpyDtoH_calls [OF a6]]
            have look5: "map_of (allocations d5) p2 = Some out1" using al5 by simp
            have len1: "length out1 = osz"
              by (simp add: out1_def out0_def overwrite_def length_fresh_bytes)
            show ?thesis
            proof (cases "r6 = CUDA_SUCCESS")
              case False
              with a1 a2 a3 a4 a5 a6 ok1 ok2 ok3 ok4 ok5 init
              have "r = failed ''Failed to copy output from device'' h' (cuMemFree (cuMemFree d6 p1) p2)"
                by (simp add: r_def hash_batch_def isz_def [symmetric] osz_def [symmetric]
                      bl_def [symmetric] Let_def)
              moreover have "h' = h_output" "allocations d6 = allocations d5" "pending d \<noteq> []"
                "uninit d6 = uninit d"
                using cuMemcpyDtoH_fail [OF a6 False] look5 len1 pe5 un5 by auto
              ultimately show ?thesis using restore [of d6] al5 free2 [OF c6, of p1 p2]
                by (auto simp: failed_def fr)
            next
              case ok6: True
              with a1 a2 a3 a4 a5 a6 ok1 ok2 ok3 ok4 ok5 init
              have "r = \<lparr>returned = True, host_output = h',
                         device_after = cuMemFree (cuMemFree d6 p1) p2, cerr = []\<rparr>"
                by (simp add: r_def hash_batch_def isz_def [symmetric] osz_def [symmetric]
                      bl_def [symmetric] Let_def)
              moreover have "h' = overwrite h_output (take osz out1)" "allocations d6 = allocations d5"
                "uninit d6 = uninit d" "pending d = [] \<Longrightarrow> pending d6 = []"
                using cuMemcpyDtoH_ok [OF a6 [unfolded ok6]] look5 un5 pe5 by auto
              ultimately show ?thesis
                using restore [of d6] al5 isz osz bl free2 [OF c6, of p1 p2]
                unfolding out1_def out0_def in1_def in0_def q2 q1
                by (auto simp: fr)
            qed
          qed
        qed
      qed
    qed
  qed
qed

lemma hash_batch_outcome:
  fixes e :: PTX_SHA256 and d :: device and h_input h_output :: "u8 list" and N :: u32
  assumes init: "initialized e"
  defines "r \<equiv> hash_batch e d h_input h_output N"
  defines "isz \<equiv> input_size N" and "osz \<equiv> output_size N" and "bl \<equiv> blocks N"
  shows "allocations (device_after r) = allocations d
       \<and> (\<exists>res rest. calls (device_after r) = calls d @ (MemAlloc isz, res) # rest)
       \<and> ((\<not> returned r \<and> host_output r = h_output \<and> cerr r \<noteq> []
            \<and> (pending d \<noteq> [] \<or> isz = 0 \<or> osz = 0 \<or> bl = 0))
          \<or> (returned r \<and> cerr r = [] \<and> 0 < isz \<and> 0 < osz \<and> 0 < bl
              \<and> (\<exists>p1 p2. host_output r =
                    overwrite h_output (take osz
                      (overwrite (fresh_bytes d p2 osz)
                         (kernel e (overwrite (fresh_bytes d p1 isz) (take isz h_input))
                                   (fresh_bytes d p2 osz) N (bl * 128)))))))"
proof -
  note P = hash_batch_paths [OF init, of d h_input h_output N, folded r_def isz_def osz_def bl_def]
  show ?thesis
  proof (cases "returned r")
    case True
    with P have "host_output r =
                    overwrite h_output (take osz
                      (overwrite (fresh_bytes d (Suc (fresh_ptr d)) osz)
                         (kernel e (overwrite (fresh_bytes d (fresh_ptr d) isz) (take isz h_input))
                                   (fresh_bytes d (Suc (fresh_ptr d)) osz) N (bl * 128))))"
      by simp
    then have "\<exists>p1 p2. host_output r =
                    overwrite h_output (take osz
                      (overwrite (fresh_bytes d p2 osz)
                         (kernel e (overwrite (fresh_bytes d p1 isz) (take isz h_input))
                                   (fresh_bytes d p2 osz) N (bl * 128))))"
      by blast
    with P True show ?thesis by simp
  next
    case False
    with P show ?thesis by simp
  qed
qed

subsection \<open>Sizes\<close>

lemma input_size_mod: "input_size N = 33 * unat N mod 2 ^ 32"
  by (simp add: input_size_def unat_word_ariths mult.commute)

lemma output_size_mod: "output_size N = 32 * unat N mod 2 ^ 32"
  by (simp add: output_size_def unat_word_ariths mult.commute)

lemma input_size_exact: "unat N \<le> 130150524 \<Longrightarrow> input_size N = 33 * unat N"
  by (simp add: input_size_mod)

lemma output_size_exact: "unat N \<le> 130150524 \<Longrightarrow> output_size N = 32 * unat N"
  by (simp add: output_size_mod)

lemma input_size_wrapped: "130150524 < unat N \<Longrightarrow> input_size N < 33 * unat N"
proof -
  assume "130150524 < unat N"
  then have "(2::nat) ^ 32 \<le> 33 * unat N" by simp
  moreover have "input_size N < 2 ^ 32" by (simp add: input_size_mod)
  ultimately show ?thesis by linarith
qed

lemma blocks_exact: "unat N \<le> 130150524 \<Longrightarrow> blocks N = (unat N + 127) div 128"
proof -
  assume a: "unat N \<le> 130150524"
  have e: "unat (127 + N) = unat N + 127"
    using a by (simp add: unat_word_ariths)
  have "blocks N = unat ((127 + N) div 128)" by (simp add: blocks_def)
  also have "\<dots> = unat (127 + N) div unat (128 :: u32)" by (rule unat_div)
  also have "\<dots> = (unat N + 127) div 128" by (simp only: e) simp
  finally show ?thesis .
qed

lemma blocks_cover: "unat N \<le> 130150524 \<Longrightarrow> unat N \<le> blocks N * 128"
  by (simp add: blocks_exact)

subsection \<open>The kernel on staged records\<close>

lemma length_be_bytes: "length (be_bytes n v) = n"
  by (simp add: be_bytes_def)

lemma length_concat_const:
  "(\<And>x. x \<in> set xs \<Longrightarrow> length (f x) = k) \<Longrightarrow> length (concat (map f xs)) = k * length xs"
  by (induction xs) simp_all

lemma length_lane_program: "length (lane_program r) = 32"
proof -
  have "length (fips_compress fips_H0 (padding_module r)) = 8"
    by (simp add: fips_compress_def list_of_regs_def fips_H0_def split: prod.splits)
  then show ?thesis
    by (simp add: lane_program_def length_concat_const length_be_bytes)
qed

lemma length_digests: "length (digests inp n) = 32 * n"
  by (simp add: digests_def length_concat_const length_lane_program)

lemma digests_Suc: "digests inp (Suc n) = digests inp n @ lane_program (record_at inp n)"
  by (simp add: digests_def)

lemma lanes_staged:
  assumes "33 * n \<le> length inp" "32 * n \<le> length out"
  shows "fold (lane inp) [0..<n] out = digests inp n @ drop (32 * n) out"
  using assms
proof (induction n)
  case 0
  then show ?case by (simp add: digests_def)
next
  case (Suc n)
  let ?X = "digests inp n @ drop (32 * n) out"
  from Suc have ih: "fold (lane inp) [0..<n] out = ?X" by simp
  have lenX: "length ?X = length out" using Suc.prems by (simp add: length_digests)
  have "lane inp n ?X = take (32 * n) ?X @ lane_program (record_at inp n) @ drop (32 * n + 32) ?X"
    using Suc.prems lenX by (simp add: lane_def record_at_def)
  also have "take (32 * n) ?X = digests inp n" by (simp add: length_digests)
  also have "drop (32 * n + 32) ?X = drop (32 * Suc n) out"
    by (simp add: length_digests add.commute)
  finally show ?case by (simp add: ih digests_Suc)
qed

lemma lanes_unstaged:
  assumes "length inp < 33 * m + 33"
  shows "fold (lane inp) [m..<n] out = out"
proof (induction n)
  case 0
  then show ?case by simp
next
  case (Suc n)
  show ?case
  proof (cases "m \<le> n")
    case True
    then have "length inp < 33 * n + 33" using assms by simp
    with True Suc show ?thesis by (simp add: lane_def)
  next
    case False
    then show ?thesis by simp
  qed
qed

lemma kernel_partial:
  assumes "33 * m \<le> length inp" "length inp < 33 * m + 33" "32 * m \<le> length out"
    and "m \<le> unat N" "m \<le> threads"
  shows "sha256_kernel inp out N threads = digests inp m @ drop (32 * m) out"
proof -
  let ?n = "min (unat N) threads"
  have "[0..<?n] = [0..<m] @ [m..<?n]"
    using assms by (metis le_add_diff_inverse min.bounded_iff upt_add_eq_append zero_le)
  then have "sha256_kernel inp out N threads = fold (lane inp) [m..<?n] (fold (lane inp) [0..<m] out)"
    by (simp add: sha256_kernel_def)
  then show ?thesis
    using assms by (simp add: lanes_unstaged lanes_staged)
qed

lemma kernel_whole:
  assumes "length inp = 33 * unat N" "length out = 32 * unat N" "unat N \<le> threads"
  shows "sha256_kernel inp out N threads = digests inp (unat N)"
  using assms kernel_partial [of "unat N" inp out N threads] by simp

lemma overwrite_whole: "length bytes = length buf \<Longrightarrow> overwrite buf bytes = bytes"
  by (simp add: overwrite_def)

lemma length_overwrite: "length (overwrite buf bytes) = length buf"
  by (simp add: overwrite_def)

subsection \<open>What a call returns\<close>

lemma hash_batch_uninitialized:
  "\<not> initialized e \<Longrightarrow>
     hash_batch e d h_input h_output N = failed ''PTX_SHA256 not initialized'' h_output d"
  by (simp add: hash_batch_def)

lemma batch_allocations: "allocations (device_after (hash_batch e d h_input h_output N)) = allocations d"
proof (cases "initialized e")
  case True
  then show ?thesis using hash_batch_outcome [of e d h_input h_output N] by simp
next
  case False
  then show ?thesis by (simp add: hash_batch_uninitialized failed_def)
qed


lemma batch_fault_free:
  assumes "initialized e" "pending d = []" "0 < input_size N" "0 < output_size N" "0 < blocks N"
  shows "returned (hash_batch e d h_input h_output N)"
  using assms hash_batch_outcome [of e d h_input h_output N] by auto

lemma batch_success_output:
  assumes "initialized e" "returned (hash_batch e d h_input h_output N)"
  shows "\<exists>p1 p2. host_output (hash_batch e d h_input h_output N) =
           overwrite h_output (take (output_size N)
             (overwrite (fresh_bytes d p2 (output_size N))
                (kernel e (overwrite (fresh_bytes d p1 (input_size N))
                                     (take (input_size N) h_input))
                          (fresh_bytes d p2 (output_size N)) N (blocks N * 128))))"
  using assms hash_batch_outcome [of e d h_input h_output N] by auto

lemma batch_success_digests:
  assumes "initialized e" "kernel e = sha256_kernel" "unat N \<le> 130150524"
    and "length h_input = 33 * unat N" "length h_output = 32 * unat N"
    and "returned (hash_batch e d h_input h_output N)"
  shows "host_output (hash_batch e d h_input h_output N) = digests h_input (unat N)"
proof -
  have isz: "input_size N = 33 * unat N" and osz: "output_size N = 32 * unat N"
    using assms(3) by (simp_all add: input_size_exact output_size_exact)
  obtain p1 p2 where out: "host_output (hash_batch e d h_input h_output N) =
           overwrite h_output (take (output_size N)
             (overwrite (fresh_bytes d p2 (output_size N))
                (kernel e (overwrite (fresh_bytes d p1 (input_size N))
                                     (take (input_size N) h_input))
                          (fresh_bytes d p2 (output_size N)) N (blocks N * 128))))"
    using batch_success_output [OF assms(1,6)] by blast
  have in1: "overwrite (fresh_bytes d p1 (input_size N)) (take (input_size N) h_input) = h_input"
    using assms(4) by (simp add: isz overwrite_whole length_fresh_bytes)
  have k: "kernel e h_input (fresh_bytes d p2 (32 * unat N)) N (blocks N * 128)
             = digests h_input (unat N)"
    using assms(2,3,4) by (simp add: kernel_whole blocks_cover length_fresh_bytes)
  show ?thesis
    using assms(5) by (simp add: out in1 k osz overwrite_whole length_digests length_fresh_bytes)
qed

lemma digest_slot:
  assumes "i < n"
  shows "take 32 (drop (32 * i) (digests h_input n)) = lane_program (record_at h_input i)"
  using assms
proof (induction n)
  case 0
  then show ?case by simp
next
  case (Suc n)
  show ?case
  proof (cases "i = n")
    case True
    then show ?thesis by (simp add: digests_Suc length_digests length_lane_program)
  next
    case False
    with Suc have "i < n" and ih: "take 32 (drop (32 * i) (digests h_input n))
        = lane_program (record_at h_input i)" by simp_all
    then have "32 * i + 32 \<le> length (digests h_input n)" by (simp add: length_digests)
    then show ?thesis using ih by (simp add: digests_Suc)
  qed
qed

subsection \<open>A count whose staging size wraps\<close>

lemma wrapped_input_size: "input_size 130150525 = 29"
  by (simp add: input_size_def)

lemma wrapped_output_size: "output_size 130150525 = 4164816800"
  by (simp add: output_size_def)

lemma wrapped_blocks: "blocks 130150525 = 1016801"
  by (simp add: blocks_def unat_div)

lemma cuMemcpyHtoD_take: "cuMemcpyHtoD d dst (take n src) n = cuMemcpyHtoD d dst src n"
  by (simp add: cuMemcpyHtoD_def cong: option.case_cong if_cong)

lemma hash_batch_staged_only:
  "hash_batch e d (take (input_size N) h_input) h_output N = hash_batch e d h_input h_output N"
  unfolding hash_batch_def Let_def cuMemcpyHtoD_take by (rule refl)

subsection \<open>Counts whose staging sizes are exact\<close>

lemma batch_order:
  assumes "initialized e" "kernel e = sha256_kernel" "unat N \<le> 130150524"
    and "length h_input = 33 * unat N" "length h_output = 32 * unat N"
    and "returned (hash_batch e d h_input h_output N)" "i < unat N"
  shows "take 32 (drop (32 * i) (host_output (hash_batch e d h_input h_output N)))
           = lane_program (take 33 (drop (33 * i) h_input))"
  using assms by (simp add: batch_success_digests digest_slot record_at_def)

lemma batch_deterministic:
  assumes "initialized e" "kernel e = sha256_kernel" "unat N \<le> 130150524"
    and "length h_input = 33 * unat N" "length h_output = 32 * unat N" "length h_output' = 32 * unat N"
    and "returned (hash_batch e d h_input h_output N)" "returned (hash_batch e d' h_input h_output' N)"
  shows "host_output (hash_batch e d h_input h_output N)
           = host_output (hash_batch e d' h_input h_output' N)"
  using assms by (simp add: batch_success_digests)

subsection \<open>One call after another\<close>







lemma drop_overwrite: "length bytes \<le> n \<Longrightarrow> drop n (overwrite buf bytes) = drop n buf"
  by (auto simp: overwrite_def drop_take min_def)

text \<open>
  Claim C6. Whatever the engine, the device, its failures, the buffers and the count, the
  device allocations after \<open>hash_batch\<close> returns are those before the call: nothing staged
  is retained. In particular, when the first allocation succeeds and the second fails, the
  call frees the first and then returns failure: these three requests are all it makes.
\<close>

theorem staging_released_on_every_path:
  "allocations (device_after (hash_batch e d h_input h_output N)) = allocations d
   \<and> (initialized e \<and> 0 < input_size N \<and> 0 < output_size N
        \<and> pending d = CUDA_SUCCESS # r # rest \<and> r \<noteq> CUDA_SUCCESS
      \<longrightarrow> \<not> returned (hash_batch e d h_input h_output N)
          \<and> calls (device_after (hash_batch e d h_input h_output N))
              = calls d @ [(MemAlloc (input_size N), CUDA_SUCCESS), (MemAlloc (output_size N), r),
                           (MemFree (fresh_ptr d), CUDA_SUCCESS)])"
proof (intro conjI impI)
  show "allocations (device_after (hash_batch e d h_input h_output N)) = allocations d"
    by (rule batch_allocations)
next
  assume a: "initialized e \<and> 0 < input_size N \<and> 0 < output_size N
        \<and> pending d = CUDA_SUCCESS # r # rest \<and> r \<noteq> CUDA_SUCCESS"
  then show "\<not> returned (hash_batch e d h_input h_output N)"
    and "calls (device_after (hash_batch e d h_input h_output N))
              = calls d @ [(MemAlloc (input_size N), CUDA_SUCCESS), (MemAlloc (output_size N), r),
                           (MemFree (fresh_ptr d), CUDA_SUCCESS)]"
    by (simp_all add: hash_batch_def cuMemAlloc_def next_result_def logged_def fresh_ptr_def
          Let_def failed_def cuMemFree_def)
qed

theorem staging_released_on_every_path_witness:
  "initialized engine0 \<and> 0 < input_size 1 \<and> 0 < output_size 1
     \<and> pending (device0 0 [CUDA_SUCCESS, CUDA_ERROR_OUT_OF_MEMORY])
          = CUDA_SUCCESS # CUDA_ERROR_OUT_OF_MEMORY # []
     \<and> CUDA_ERROR_OUT_OF_MEMORY \<noteq> CUDA_SUCCESS
     \<and> \<not> returned (hash_batch engine0 (device0 0 [CUDA_SUCCESS, CUDA_ERROR_OUT_OF_MEMORY])
                       test_pubkey (replicate 32 0) 1)
     \<and> allocations (device_after (hash_batch engine0
            (device0 0 [CUDA_SUCCESS, CUDA_ERROR_OUT_OF_MEMORY]) test_pubkey (replicate 32 0) 1)) = []"
  using staging_released_on_every_path [of engine0 "device0 0 [CUDA_SUCCESS, CUDA_ERROR_OUT_OF_MEMORY]"
      test_pubkey "replicate 32 0" 1 CUDA_ERROR_OUT_OF_MEMORY "[]"]
  by (simp add: engine0_def device0_def input_size_def output_size_def)

text \<open>
  Claim C8, at the count 0. \<open>hash_batch\<close> has no case for an empty batch: it asks
  \<open>cuMemAlloc\<close> for \<open>0 * 33 = 0\<close> bytes, the driver answers \<open>CUDA_ERROR_INVALID_VALUE\<close>, and the
  call returns failure with the line \<^verbatim>\<open>Failed to allocate input memory\<close> on \<^verbatim>\<open>std::cerr\<close>. The
  output buffer is left as it was.
\<close>

theorem empty_batch_is_refused:
  "\<not> returned (hash_batch e d h_input h_output 0)
   \<and> host_output (hash_batch e d h_input h_output 0) = h_output
   \<and> cerr (hash_batch (e\<lparr>initialized := True\<rparr>) d h_input h_output 0)
        = [''Failed to allocate input memory'']"
  by (simp add: hash_batch_def input_size_def cuMemAlloc_def failed_def)

text \<open>
  Claim C10. The staging sizes are \<open>num_keys * 33\<close> and \<open>num_keys * 32\<close> modulo \<open>2^32\<close>. For
  every count up to 130,150,524 the input size is \<open>33\<close> times the count; for every greater
  count it is strictly smaller. No count is rejected: on an initialized engine the first
  request to the driver is the allocation of that size, whatever the count, and at the
  count 130,150,525 the call returns success when the device reports no failure.
\<close>

theorem staging_sizes_wrap:
  "input_size N = 33 * unat N mod 2 ^ 32
   \<and> output_size N = 32 * unat N mod 2 ^ 32
   \<and> (unat N \<le> 130150524 \<longrightarrow> input_size N = 33 * unat N)
   \<and> (130150524 < unat N \<longrightarrow> input_size N < 33 * unat N)
   \<and> (initialized e \<longrightarrow>
        (\<exists>res rest. calls (device_after (hash_batch e d h_input h_output N))
                      = calls d @ (MemAlloc (input_size N), res) # rest))
   \<and> (initialized e \<and> pending d = [] \<longrightarrow> returned (hash_batch e d h_input h_output 130150525))"
proof -
  have "initialized e \<Longrightarrow> \<exists>res rest. calls (device_after (hash_batch e d h_input h_output N))
                      = calls d @ (MemAlloc (input_size N), res) # rest"
    using hash_batch_outcome [of e d h_input h_output N] by simp
  moreover have "initialized e \<Longrightarrow> pending d = [] \<Longrightarrow>
      returned (hash_batch e d h_input h_output 130150525)"
    by (intro batch_fault_free) (simp_all add: wrapped_input_size wrapped_output_size wrapped_blocks)
  ultimately show ?thesis
    using input_size_mod [of N] output_size_mod [of N] input_size_exact [of N] input_size_wrapped [of N]
    by blast
qed

theorem staging_sizes_wrap_witness:
  "unat (1 :: u32) \<le> 130150524 \<and> input_size 1 = 33
   \<and> 130150524 < unat (130150525 :: u32) \<and> input_size 130150525 = 29
   \<and> input_size 130150525 < 33 * unat (130150525 :: u32)
   \<and> initialized engine0 \<and> pending (device0 0 []) = []
   \<and> returned (hash_batch engine0 (device0 0 []) [] [] 130150525)"
  using staging_sizes_wrap [of 1 engine0 "device0 0 []" "[]" "[]"]
    staging_sizes_wrap [of 130150525 engine0 "device0 0 []" "[]" "[]"]
  by (simp add: engine0_def device0_def)

text \<open>
  Claim C2, at the count 130,150,525. The input size wraps to 29, so \<open>hash_batch\<close> stages
  29 bytes of the \<open>33 * 130,150,525\<close> it is given: two input buffers that agree on their
  first 29 bytes give the same result in every respect, whatever the kernel, and the call
  succeeds when the device reports no failure. The bytes written at offset \<open>32 * i\<close> are
  therefore not a function of the record at offset \<open>33 * i\<close>.
\<close>

theorem unstaged_records_are_ignored:
  assumes "take 29 h_input = take 29 h_input'"
  shows "hash_batch e d h_input h_output 130150525 = hash_batch e d h_input' h_output 130150525
       \<and> (initialized e \<and> pending d = [] \<longrightarrow> returned (hash_batch e d h_input h_output 130150525))"
proof -
  have "hash_batch e d h_input h_output 130150525 = hash_batch e d h_input' h_output 130150525"
    using assms hash_batch_staged_only [of e d 130150525 h_input h_output]
      hash_batch_staged_only [of e d 130150525 h_input' h_output]
    by (simp add: wrapped_input_size)
  moreover have "initialized e \<Longrightarrow> pending d = [] \<Longrightarrow>
      returned (hash_batch e d h_input h_output 130150525)"
    by (intro batch_fault_free) (simp_all add: wrapped_input_size wrapped_output_size wrapped_blocks)
  ultimately show ?thesis by blast
qed

theorem unstaged_records_are_ignored_witness:
  "take 29 (replicate 4294967325 (0::u8)) = take 29 (replicate 29 0 @ replicate 4294967296 1)
   \<and> initialized engine0 \<and> pending (device0 0 []) = []
   \<and> hash_batch engine0 (device0 0 []) (replicate 4294967325 0) (replicate 4164816800 0) 130150525
       = hash_batch engine0 (device0 0 []) (replicate 29 0 @ replicate 4294967296 1)
           (replicate 4164816800 0) 130150525
   \<and> returned (hash_batch engine0 (device0 0 []) (replicate 4294967325 0)
                  (replicate 4164816800 0) 130150525)"
proof -
  have t: "take 29 (replicate 4294967325 (0::u8)) = take 29 (replicate 29 0 @ replicate 4294967296 1)"
    by simp
  from unstaged_records_are_ignored [OF t, of engine0 "device0 0 []" "replicate 4164816800 0"] t
  show ?thesis by (auto simp: engine0_def device0_def)
qed

text \<open>
  Claim C7, at the count 134,217,729. The output size wraps to 32, so on success
  \<open>hash_batch\<close> copies 32 bytes back: whatever the kernel, everything in the caller's buffer
  after its first 32 bytes is as it was before the call, one slot written of 134,217,729.
\<close>

theorem wrapped_batch_writes_one_slot:
  assumes "initialized e" and "returned (hash_batch e d h_input h_output 134217729)"
  shows "output_size 134217729 = 32
       \<and> drop 32 (host_output (hash_batch e d h_input h_output 134217729)) = drop 32 h_output"
proof -
  have osz: "output_size 134217729 = 32" by (simp add: output_size_def)
  obtain X where "host_output (hash_batch e d h_input h_output 134217729)
                    = overwrite h_output (take 32 X)"
    using batch_success_output [OF assms] by (auto simp: osz)
  then show ?thesis by (simp add: osz drop_overwrite)
qed

theorem wrapped_batch_writes_one_slot_witness:
  "initialized engine0
   \<and> returned (hash_batch engine0 (device0 0 []) (replicate 4429185057 0) (replicate 4294967328 7) 134217729)
   \<and> drop 32 (host_output (hash_batch engine0 (device0 0 []) (replicate 4429185057 0)
                               (replicate 4294967328 7) 134217729))
       = replicate 4294967296 7"
proof -
  have i: "initialized engine0" by (simp add: engine0_def)
  have r: "returned (hash_batch engine0 (device0 0 []) (replicate 4429185057 0)
                       (replicate 4294967328 7) 134217729)"
    using i by (intro batch_fault_free)
      (simp_all add: device0_def input_size_def output_size_def blocks_def unat_div)
  from wrapped_batch_writes_one_slot [OF i r] i r show ?thesis by simp
qed



end
